theory Spec2Isabelle
  imports Main "HOL-Library.Product_Lexorder"
begin

section \<open>Data model\<close>

text \<open>
  A cell is a Python tuple \<open>(i, j)\<close> of unbounded integers. A Python \<open>set\<close> of cells is
  a HOL set; the sets of a running program are finite. Where the order in which Python
  iterates over a set can be observed, the order is a parameter of the model (see
  \<open>runtime\<close> below).
\<close>

type_synonym cell = "int \<times> int"

text \<open>
  \<^verbatim>\<open>class Sentence\<close>: a set of cells and the number of them that are mines. The
  constructor copies its argument (\<^verbatim>\<open>self.cells = set(cells)\<close>), so no two sentences share
  a cell set.
\<close>

record Sentence =
  cells :: "cell set"
  count :: int

definition Sentence_init :: "cell set \<Rightarrow> int \<Rightarrow> Sentence" where
  "Sentence_init cs n = \<lparr>cells = cs, count = n\<rparr>"

text \<open>\<^verbatim>\<open>__eq__\<close>: equal cell sets and equal counts.\<close>

definition Sentence_eq :: "Sentence \<Rightarrow> Sentence \<Rightarrow> bool" where
  "Sentence_eq s other \<longleftrightarrow> cells s = cells other \<and> count s = count other"

text \<open>
  \<^verbatim>\<open>known_mines\<close> and \<^verbatim>\<open>known_safes\<close> read the sentence and return a fresh set. Each is
  modelled as the pair of the returned set and the sentence after the call.
\<close>

definition known_mines :: "Sentence \<Rightarrow> cell set \<times> Sentence" where
  "known_mines s = (if count s = int (card (cells s)) then (cells s, s) else ({}, s))"

definition known_safes :: "Sentence \<Rightarrow> cell set \<times> Sentence" where
  "known_safes s = (if count s = 0 then (cells s, s) else ({}, s))"

text \<open>
  \<^verbatim>\<open>Sentence.mark_mine\<close>: the first loop collects the cells equal to \<open>cell\<close> and decrements
  \<open>count\<close> once for each; the second loop removes the collected cells, all of which are
  in \<open>cells\<close>, so \<^verbatim>\<open>remove\<close> cannot raise.
\<close>

definition Sentence_mark_mine :: "Sentence \<Rightarrow> cell \<Rightarrow> Sentence" where
  "Sentence_mark_mine s cell =
     (let to_be_removed = {eachCell \<in> cells s. cell = eachCell}
      in \<lparr>cells = cells s - to_be_removed, count = count s - int (card to_be_removed)\<rparr>)"

definition Sentence_mark_safe :: "Sentence \<Rightarrow> cell \<Rightarrow> Sentence" where
  "Sentence_mark_safe s cell =
     (let to_be_removed = {eachCell \<in> cells s. cell = eachCell}
      in \<lparr>cells = cells s - to_be_removed, count = count s\<rparr>)"

text \<open>\<^verbatim>\<open>class MinesweeperAI\<close>.\<close>

record MinesweeperAI =
  height :: int
  width :: int
  moves_made :: "cell set"
  mines :: "cell set"
  safes :: "cell set"
  knowledge :: "Sentence list"

definition MinesweeperAI_init :: "int \<Rightarrow> int \<Rightarrow> MinesweeperAI" where
  "MinesweeperAI_init h w =
     \<lparr>height = h, width = w, moves_made = {}, mines = {}, safes = {}, knowledge = []\<rparr>"

definition mark_mine :: "MinesweeperAI \<Rightarrow> cell \<Rightarrow> MinesweeperAI" where
  "mark_mine ai cell =
     ai\<lparr>mines := insert cell (mines ai),
        knowledge := map (\<lambda>sentence. Sentence_mark_mine sentence cell) (knowledge ai)\<rparr>"

definition mark_safe :: "MinesweeperAI \<Rightarrow> cell \<Rightarrow> MinesweeperAI" where
  "mark_safe ai cell =
     ai\<lparr>safes := insert cell (safes ai),
        knowledge := map (\<lambda>sentence. Sentence_mark_safe sentence cell) (knowledge ai)\<rparr>"

text \<open>
  \<^verbatim>\<open>check\<close>: adds the known mines of a sentence to \<open>mines\<close>, or else its known safes to
  \<open>safes\<close>. It writes to the two sets directly; the sentences of \<open>knowledge\<close> are not
  touched.
\<close>

definition check :: "MinesweeperAI \<Rightarrow> Sentence \<Rightarrow> MinesweeperAI" where
  "check ai checking_set =
     (if fst (known_mines checking_set) \<noteq> {}
      then ai\<lparr>mines := mines ai \<union> fst (known_mines checking_set)\<rparr>
      else if fst (known_safes checking_set) \<noteq> {}
      then ai\<lparr>safes := safes ai \<union> fst (known_safes checking_set)\<rparr>
      else ai)"


section \<open>The Python runtime\<close>

text \<open>
  Three things that \<^verbatim>\<open>add_knowledge\<close> and \<^verbatim>\<open>make_safe_move\<close> read are fixed by the Python
  runtime and not by the program text; they are parameters of the model.
  \<^item> \<open>repr_hash n\<close>: the hash of the \<open>n\<close>-th \<^verbatim>\<open>Sentence\<close> object created in a resolution pass.
    \<^verbatim>\<open>__hash__\<close> returns \<^verbatim>\<open>hash(repr(self))\<close>, and the class defines \<^verbatim>\<open>__str__\<close> but no
    \<^verbatim>\<open>__repr__\<close>, so \<^verbatim>\<open>repr(self)\<close> is the default text with the address of the object: the
    hash belongs to the object and not to its cells and count.
  \<^item> \<open>iter_sentences\<close>: the order in which a \<^verbatim>\<open>for\<close> loop yields the elements of the set
    \<^verbatim>\<open>new_sentences\<close>.
  \<^item> \<open>iter_cells\<close>: the order in which a \<^verbatim>\<open>for\<close> loop yields the elements of a set of cells.
\<close>

record runtime =
  repr_hash :: "nat \<Rightarrow> int"
  iter_sentences :: "(int \<times> Sentence) list \<Rightarrow> (int \<times> Sentence) list"
  iter_cells :: "cell set \<Rightarrow> cell list"

text \<open>
  A Python set of \<^verbatim>\<open>Sentence\<close> objects is the list of its elements, each with its hash, in
  the order of insertion. \<^verbatim>\<open>add\<close> keeps the set as it is when it holds an element with the
  same hash that \<^verbatim>\<open>__eq__\<close> accepts, and inserts otherwise.
\<close>

definition set_add :: "int \<times> Sentence \<Rightarrow> (int \<times> Sentence) list \<Rightarrow> (int \<times> Sentence) list" where
  "set_add e ns =
     (if \<exists>e' \<in> set ns. fst e' = fst e \<and> Sentence_eq (snd e') (snd e) then ns else ns @ [e])"

text \<open>An iteration yields every element of the set once, in some order.\<close>

definition iter_ok :: "runtime \<Rightarrow> bool" where
  "iter_ok rt \<longleftrightarrow> (\<forall>ns. set (iter_sentences rt ns) = set ns \<and>
                        length (iter_sentences rt ns) = length ns)"

text \<open>
  One runtime, for running the model on concrete inputs: the \<open>n\<close>-th sentence created in
  a pass has hash \<open>n\<close> (objects that are alive together have different addresses, so
  different default texts), a set of sentences is iterated in the order of insertion, and a
  set of cells in increasing order.
\<close>

definition runtime0 :: runtime where
  "runtime0 = \<lparr>repr_hash = int, iter_sentences = (\<lambda>ns. ns), iter_cells = sorted_list_of_set\<rparr>"

section \<open>add\_knowledge\<close>

text \<open>
  Lines 217--227: the body of the two nested loops over the rows and columns around
  \<open>cell\<close>, and the sentence built from their result (\<open>cnt\<close> is the variable \<^verbatim>\<open>count\<close>).
\<close>

definition neighbour_step :: "MinesweeperAI \<Rightarrow> cell \<Rightarrow> cell \<Rightarrow> cell set \<times> int \<Rightarrow> cell set \<times> int" where
  "neighbour_step ai cell = (\<lambda>(i, j) (sentence_set, cnt).
     if 0 \<le> i \<and> i \<le> height ai - 1 \<and> 0 \<le> j \<and> j \<le> width ai - 1 \<and> (i \<noteq> fst cell \<or> j \<noteq> snd cell)
     then (if (i, j) \<in> mines ai then (sentence_set, cnt - 1)
           else if (i, j) \<notin> safes ai then (insert (i, j) sentence_set, cnt)
           else (sentence_set, cnt))
     else (sentence_set, cnt))"

text \<open>The cells the two loops visit, in their order.\<close>

definition around :: "cell \<Rightarrow> cell list" where
  "around cell = concat (map (\<lambda>i. map (\<lambda>j. (i, j)) [snd cell - 1, snd cell, snd cell + 1])
                           [fst cell - 1, fst cell, fst cell + 1])"

definition my_sentence :: "MinesweeperAI \<Rightarrow> cell \<Rightarrow> int \<Rightarrow> Sentence" where
  "my_sentence ai cell cnt =
     (let (sentence_set, cnt') = fold (neighbour_step ai cell) (around cell) ({}, cnt)
      in Sentence_init sentence_set cnt')"

text \<open>Lines 213--231: record the move, mark the cell safe, append the sentence, check it.\<close>

definition observe :: "MinesweeperAI \<Rightarrow> cell \<Rightarrow> int \<Rightarrow> MinesweeperAI" where
  "observe ai cell cnt =
     (let ai1 = ai\<lparr>moves_made := insert cell (moves_made ai)\<rparr>;
          ai2 = mark_safe ai1 cell;
          s = my_sentence ai2 cell cnt;
          ai3 = ai2\<lparr>knowledge := knowledge ai2 @ [s]\<rparr>
      in check ai3 s)"

text \<open>
  Lines 235--255: the body of the loops over the pairs of sentences. Its state is the
  engine, the set \<^verbatim>\<open>new_sentences\<close> and the number of sentences created so far in the pass.
  \<^verbatim>\<open>new_cells.remove\<close> runs under the \<^verbatim>\<open>issubset\<close> test, so it cannot raise and the loop that
  removes is a set difference.
\<close>

definition pair_step :: "runtime \<Rightarrow> Sentence \<times> Sentence \<Rightarrow>
    MinesweeperAI \<times> (int \<times> Sentence) list \<times> nat \<Rightarrow> MinesweeperAI \<times> (int \<times> Sentence) list \<times> nat" where
  "pair_step rt = (\<lambda>(sentence_1, sentence_2) (ai, new_sentences, n).
     if cells sentence_1 \<noteq> cells sentence_2 then
       if cells sentence_1 \<subseteq> cells sentence_2 then
         (check (check ai sentence_1) sentence_2,
          set_add (repr_hash rt n,
                   Sentence_init (cells sentence_2 - cells sentence_1)
                                 (count sentence_2 - count sentence_1)) new_sentences,
          Suc n)
       else if cells sentence_2 \<subseteq> cells sentence_1 then
         (check (check ai sentence_1) sentence_2,
          set_add (repr_hash rt n,
                   Sentence_init (cells sentence_1 - cells sentence_2)
                                 (count sentence_1 - count sentence_2)) new_sentences,
          Suc n)
       else (ai, new_sentences, n)
     else (ai, new_sentences, n))"

text \<open>Lines 257--259: append every collected sentence and check it.\<close>

definition append_step :: "int \<times> Sentence \<Rightarrow> MinesweeperAI \<Rightarrow> MinesweeperAI" where
  "append_step = (\<lambda>(h, eachSentence) ai.
     check (ai\<lparr>knowledge := knowledge ai @ [eachSentence]\<rparr>) eachSentence)"

text \<open>
  Lines 233--259, the resolution pass. Nothing in the pair loops appends to \<open>knowledge\<close> or
  changes a sentence, so the pairs the loops visit are those of the list at the start.
\<close>

definition pair_loop :: "runtime \<Rightarrow> MinesweeperAI \<Rightarrow> MinesweeperAI \<times> (int \<times> Sentence) list \<times> nat" where
  "pair_loop rt ai =
     fold (pair_step rt)
       (concat (map (\<lambda>sentence_1. map (\<lambda>sentence_2. (sentence_1, sentence_2)) (knowledge ai))
                    (knowledge ai)))
       (ai, [], 0)"

definition resolve :: "runtime \<Rightarrow> MinesweeperAI \<Rightarrow> MinesweeperAI" where
  "resolve rt ai =
     (let (ai', new_sentences, n) = pair_loop rt ai
      in fold append_step (iter_sentences rt new_sentences) ai')"

definition add_knowledge :: "runtime \<Rightarrow> MinesweeperAI \<Rightarrow> cell \<Rightarrow> int \<Rightarrow> MinesweeperAI" where
  "add_knowledge rt ai cell cnt = resolve rt (observe ai cell cnt)"

section \<open>make\_safe\_move and make\_random\_move\<close>

text \<open>
  Both methods return the first cell of their scan that qualifies, and \<^verbatim>\<open>None\<close> when the
  loop ends. They are modelled as the pair of the result and the engine after the call.
\<close>

definition make_safe_move :: "runtime \<Rightarrow> MinesweeperAI \<Rightarrow> cell option \<times> MinesweeperAI" where
  "make_safe_move rt ai = (find (\<lambda>t. t \<notin> moves_made ai) (iter_cells rt (safes ai)), ai)"

definition make_random_move :: "MinesweeperAI \<Rightarrow> cell option \<times> MinesweeperAI" where
  "make_random_move ai =
     (find (\<lambda>t. t \<notin> moves_made ai \<and> t \<notin> mines ai)
        (concat (map (\<lambda>i. map (\<lambda>j. (i, j)) [0..width ai - 1]) [0..height ai - 1])), ai)"

section \<open>Sequences of calls\<close>

datatype call =
    Mark_mine cell
  | Mark_safe cell
  | Add_knowledge cell int
  | Make_safe_move
  | Make_random_move

fun exec :: "runtime \<times> call \<Rightarrow> MinesweeperAI \<Rightarrow> MinesweeperAI" where
  "exec (rt, Mark_mine c) ai = mark_mine ai c"
| "exec (rt, Mark_safe c) ai = mark_safe ai c"
| "exec (rt, Add_knowledge c n) ai = add_knowledge rt ai c n"
| "exec (rt, Make_safe_move) ai = snd (make_safe_move rt ai)"
| "exec (rt, Make_random_move) ai = snd (make_random_move ai)"

definition run :: "(runtime \<times> call) list \<Rightarrow> MinesweeperAI \<Rightarrow> MinesweeperAI" where
  "run cs ai = fold exec cs ai"


section \<open>Two games\<close>

text \<open>
  Two engines in the middle of a game, each reached by calls that say what its board
  says. On the board of 1 row and 4 columns the mine is at \<open>(0, 2)\<close>, and \<open>(0, 1)\<close> and
  \<open>(0, 0)\<close> have been probed. On the board of 3 rows and 3 columns the mines are at
  \<open>(0, 0)\<close>, \<open>(0, 2)\<close> and \<open>(2, 2)\<close>; three cells have been marked safe and \<open>(1, 0)\<close>,
  \<open>(2, 1)\<close> and \<open>(1, 1)\<close> have been probed.
\<close>

definition game_1x4 :: MinesweeperAI where
  "game_1x4 = run [(runtime0, Add_knowledge (0, 1) 1), (runtime0, Add_knowledge (0, 0) 0)]
                (MinesweeperAI_init 1 4)"

definition game_3x3 :: MinesweeperAI where
  "game_3x3 = run [(runtime0, Mark_safe (1, 1)), (runtime0, Mark_safe (2, 0)),
                   (runtime0, Mark_safe (2, 1)), (runtime0, Add_knowledge (1, 0) 1),
                   (runtime0, Add_knowledge (2, 1) 1), (runtime0, Add_knowledge (1, 1) 3)]
                (MinesweeperAI_init 3 3)"

section \<open>Notions of the specification\<close>

text \<open>
  The in-bounds neighbours of a cell on a board of the given height and width, the cell
  itself excluded, as the specification words it. This set is compared with what the
  loops of \<^verbatim>\<open>add_knowledge\<close> compute.
\<close>

definition neighbours :: "int \<Rightarrow> int \<Rightarrow> cell \<Rightarrow> cell set" where
  "neighbours h w cell =
     {(i, j) \<in> {fst cell - 1, fst cell, fst cell + 1} \<times> {snd cell - 1, snd cell, snd cell + 1}.
        (i, j) \<noteq> cell \<and> 0 \<le> i \<and> i < h \<and> 0 \<le> j \<and> j < w}"

text \<open>
  A board is the set \<open>M\<close> of its mines. A sentence holds on a board when its count is
  the number of its cells that are mines. A call agrees with a board when it says what the
  board says: \<^verbatim>\<open>mark_mine\<close> names a mine, \<^verbatim>\<open>mark_safe\<close> a cell without a mine, and
  \<^verbatim>\<open>add_knowledge\<close> a cell without a mine together with the number of mines among its
  in-bounds neighbours.
\<close>

definition holds_on :: "cell set \<Rightarrow> Sentence \<Rightarrow> bool" where
  "holds_on M s \<longleftrightarrow> finite (cells s) \<and> count s = int (card (cells s \<inter> M))"

fun agrees :: "cell set \<Rightarrow> int \<Rightarrow> int \<Rightarrow> call \<Rightarrow> bool" where
  "agrees M h w (Mark_mine c) \<longleftrightarrow> c \<in> M"
| "agrees M h w (Mark_safe c) \<longleftrightarrow> c \<notin> M"
| "agrees M h w (Add_knowledge c n) \<longleftrightarrow> c \<notin> M \<and> n = int (card (neighbours h w c \<inter> M))"
| "agrees M h w Make_safe_move \<longleftrightarrow> True"
| "agrees M h w Make_random_move \<longleftrightarrow> True"

text \<open>What the engine knows is true of the board.\<close>

definition sound :: "cell set \<Rightarrow> MinesweeperAI \<Rightarrow> bool" where
  "sound M ai \<longleftrightarrow> mines ai \<subseteq> M \<and> safes ai \<inter> M = {} \<and> (\<forall>s \<in> set (knowledge ai). holds_on M s)"

text \<open>The test of line 221, as a predicate on the visited cell.\<close>

definition in_loop :: "MinesweeperAI \<Rightarrow> cell \<Rightarrow> cell \<Rightarrow> bool" where
  "in_loop ai cell n \<longleftrightarrow> 0 \<le> fst n \<and> fst n \<le> height ai - 1 \<and> 0 \<le> snd n \<and> snd n \<le> width ai - 1 \<and>
     (fst n \<noteq> fst cell \<or> snd n \<noteq> snd cell)"

text \<open>
  The sentences that the body of the pair loops creates for one pair of sentences: the
  difference of the two when the cell sets differ and one contains the other.
\<close>

definition inferred :: "Sentence \<times> Sentence \<Rightarrow> Sentence set" where
  "inferred = (\<lambda>(s1, s2).
     if cells s1 \<noteq> cells s2 \<and> cells s1 \<subseteq> cells s2
     then {Sentence_init (cells s2 - cells s1) (count s2 - count s1)}
     else if cells s1 \<noteq> cells s2 \<and> cells s2 \<subseteq> cells s1
     then {Sentence_init (cells s1 - cells s2) (count s1 - count s2)}
     else {})"

section \<open>Sentences\<close>

lemma to_be_removed_eq: "{eachCell \<in> S. c = eachCell} = (if c \<in> S then {c} else {})"
  by auto

lemma Sentence_mark_mine_simp:
  "Sentence_mark_mine s c =
     (if c \<in> cells s then \<lparr>cells = cells s - {c}, count = count s - 1\<rparr> else s)"
  by (simp add: Sentence_mark_mine_def to_be_removed_eq)

lemma Sentence_mark_safe_simp:
  "Sentence_mark_safe s c = (if c \<in> cells s then \<lparr>cells = cells s - {c}, count = count s\<rparr> else s)"
  by (simp add: Sentence_mark_safe_def to_be_removed_eq)

text \<open>
  Claim C6. \<^verbatim>\<open>known_mines\<close> returns the cells of the sentence when its count is the number
  of its cells and the empty set otherwise; \<^verbatim>\<open>known_safes\<close> returns the cells when the
  count is 0 and the empty set otherwise; the sentence after either call is the sentence
  before it.
\<close>

theorem known_mines_known_safes_spec:
  "fst (known_mines s) = (if count s = int (card (cells s)) then cells s else {}) \<and>
   snd (known_mines s) = s \<and>
   fst (known_safes s) = (if count s = 0 then cells s else {}) \<and>
   snd (known_safes s) = s"
  by (simp add: known_mines_def known_safes_def)

theorem known_mines_known_safes_spec_witness:
  "fst (known_mines \<lparr>cells = {(0, 1), (1, 1)}, count = 2\<rparr>) = {(0, 1), (1, 1)} \<and>
   snd (known_mines \<lparr>cells = {(0, 1), (1, 1)}, count = 2\<rparr>) = \<lparr>cells = {(0, 1), (1, 1)}, count = 2\<rparr> \<and>
   fst (known_safes \<lparr>cells = {(0, 1), (1, 1)}, count = 2\<rparr>) = {} \<and>
   snd (known_safes \<lparr>cells = {(0, 1), (1, 1)}, count = 2\<rparr>) = \<lparr>cells = {(0, 1), (1, 1)}, count = 2\<rparr>"
  using known_mines_known_safes_spec [of "\<lparr>cells = {(0, 1), (1, 1)}, count = 2\<rparr>"]
  by simp

text \<open>
  Claim C7. For a cell of the sentence, \<^verbatim>\<open>mark_mine\<close> removes the cell and lowers the
  count by one, and \<^verbatim>\<open>mark_safe\<close> removes the cell and keeps the count; for a cell that is
  not in the sentence both return the sentence as it was. The result is a function of the
  sentence and the cell alone.
\<close>

theorem Sentence_mark_spec:
  "(c \<in> cells s \<longrightarrow>
      Sentence_mark_mine s c = \<lparr>cells = cells s - {c}, count = count s - 1\<rparr> \<and>
      Sentence_mark_safe s c = \<lparr>cells = cells s - {c}, count = count s\<rparr>) \<and>
   (c \<notin> cells s \<longrightarrow> Sentence_mark_mine s c = s \<and> Sentence_mark_safe s c = s)"
  by (simp add: Sentence_mark_mine_simp Sentence_mark_safe_simp)

theorem Sentence_mark_spec_witness:
  "(0, 1) \<in> cells \<lparr>cells = {(0, 1), (1, 1)}, count = 1\<rparr> \<and>
   Sentence_mark_mine \<lparr>cells = {(0, 1), (1, 1)}, count = 1\<rparr> (0, 1) = \<lparr>cells = {(1, 1)}, count = 0\<rparr> \<and>
   Sentence_mark_safe \<lparr>cells = {(0, 1), (1, 1)}, count = 1\<rparr> (0, 1) = \<lparr>cells = {(1, 1)}, count = 1\<rparr> \<and>
   (2, 2) \<notin> cells \<lparr>cells = {(0, 1), (1, 1)}, count = 1\<rparr> \<and>
   Sentence_mark_mine \<lparr>cells = {(0, 1), (1, 1)}, count = 1\<rparr> (2, 2) = \<lparr>cells = {(0, 1), (1, 1)}, count = 1\<rparr> \<and>
   Sentence_mark_safe \<lparr>cells = {(0, 1), (1, 1)}, count = 1\<rparr> (2, 2) = \<lparr>cells = {(0, 1), (1, 1)}, count = 1\<rparr>"
  using Sentence_mark_spec [of "(0, 1)" "\<lparr>cells = {(0, 1), (1, 1)}, count = 1\<rparr>"]
        Sentence_mark_spec [of "(2, 2)" "\<lparr>cells = {(0, 1), (1, 1)}, count = 1\<rparr>"]
  by (simp add: insert_Diff_if)

text \<open>
  Claim C4 asks for an error when \<^verbatim>\<open>mark_mine\<close> would take the count below zero. The
  method has no such branch: on a sentence with one cell and count 0 it returns normally
  and stores the count \<open>-1\<close>.
\<close>

theorem Sentence_mark_mine_negative_counterexample:
  "(0, 0) \<in> cells \<lparr>cells = {(0, 0)}, count = 0\<rparr> \<and>
   count \<lparr>cells = {(0, 0)}, count = 0\<rparr> = 0 \<and>
   Sentence_mark_mine \<lparr>cells = {(0, 0)}, count = 0\<rparr> (0, 0) = \<lparr>cells = {}, count = - 1\<rparr>"
  by (simp add: Sentence_mark_mine_simp)

text \<open>
  Claim C4, amended. \<^verbatim>\<open>mark_mine\<close> on a cell of a sentence whose count is 0 raises
  nothing: it removes the cell and stores the count \<open>-1\<close>, neither clamped nor reported.
\<close>

theorem Sentence_mark_mine_zero_count:
  "c \<in> cells s \<Longrightarrow> count s = 0 \<Longrightarrow>
   Sentence_mark_mine s c = \<lparr>cells = cells s - {c}, count = - 1\<rparr>"
  by (simp add: Sentence_mark_mine_simp)

theorem Sentence_mark_mine_zero_count_witness:
  "(0, 1) \<in> cells \<lparr>cells = {(0, 1), (1, 1)}, count = 0\<rparr> \<and>
   count \<lparr>cells = {(0, 1), (1, 1)}, count = 0\<rparr> = 0 \<and>
   Sentence_mark_mine \<lparr>cells = {(0, 1), (1, 1)}, count = 0\<rparr> (0, 1) = \<lparr>cells = {(1, 1)}, count = - 1\<rparr>"
  using Sentence_mark_mine_zero_count [of "(0, 1)" "\<lparr>cells = {(0, 1), (1, 1)}, count = 0\<rparr>"]
  by (simp add: insert_Diff_if)

section \<open>Moves\<close>

text \<open>
  Claim C9. Whatever the order in which the loop yields the cells of \<open>safes\<close>,
  \<^verbatim>\<open>make_safe_move\<close> returns a cell of \<open>safes\<close> that is not in \<open>moves_made\<close> when there is
  one and \<^verbatim>\<open>None\<close> when there is none, and the engine after the call is the engine before
  it.
\<close>

theorem make_safe_move_spec:
  assumes "set (iter_cells rt (safes ai)) = safes ai"
  shows "((\<exists>c. c \<in> safes ai \<and> c \<notin> moves_made ai) \<longrightarrow>
            (\<exists>c. fst (make_safe_move rt ai) = Some c \<and> c \<in> safes ai \<and> c \<notin> moves_made ai)) \<and>
         (\<not> (\<exists>c. c \<in> safes ai \<and> c \<notin> moves_made ai) \<longrightarrow> fst (make_safe_move rt ai) = None) \<and>
         snd (make_safe_move rt ai) = ai"
proof -
  let ?xs = "iter_cells rt (safes ai)"
  let ?P = "\<lambda>t. t \<notin> moves_made ai"
  have some: "\<exists>c. find ?P ?xs = Some c \<and> c \<in> safes ai \<and> c \<notin> moves_made ai"
    if "\<exists>c. c \<in> safes ai \<and> c \<notin> moves_made ai"
  proof (cases "find ?P ?xs")
    case None
    then have "\<not> (\<exists>x. x \<in> set ?xs \<and> ?P x)" by (rule find_None_iff [THEN iffD1])
    then have all: "\<forall>x \<in> set ?xs. x \<in> moves_made ai" by blast
    from that obtain c where c: "c \<in> safes ai" "c \<notin> moves_made ai" by blast
    from c(1) assms have "c \<in> set ?xs" by simp
    with all c(2) show ?thesis by blast
  next
    case (Some c)
    then have "c \<in> set ?xs \<and> ?P c" by (auto simp: find_Some_iff)
    with Some assms show ?thesis by simp
  qed
  have none: "find ?P ?xs = None" if "\<not> (\<exists>c. c \<in> safes ai \<and> c \<notin> moves_made ai)"
  proof -
    have "\<not> (\<exists>x. x \<in> set ?xs \<and> ?P x)" using that assms by blast
    then show ?thesis by (rule find_None_iff [THEN iffD2])
  qed
  show ?thesis using some none by (simp add: make_safe_move_def)
qed

theorem make_safe_move_spec_witness:
  "set (iter_cells runtime0
         (safes \<lparr>height = 1, width = 3, moves_made = {(0, 0)}, mines = {},
                 safes = {(0, 0), (0, 1)}, knowledge = []\<rparr>)) =
     safes \<lparr>height = 1, width = 3, moves_made = {(0, 0)}, mines = {},
            safes = {(0, 0), (0, 1)}, knowledge = []\<rparr> \<and>
   make_safe_move runtime0
     \<lparr>height = 1, width = 3, moves_made = {(0, 0)}, mines = {},
      safes = {(0, 0), (0, 1)}, knowledge = []\<rparr> =
     (Some (0, 1),
      \<lparr>height = 1, width = 3, moves_made = {(0, 0)}, mines = {},
       safes = {(0, 0), (0, 1)}, knowledge = []\<rparr>)"
proof -
  let ?ai = "\<lparr>height = 1, width = 3, moves_made = {(0, 0)}, mines = {},
              safes = {(0, 0), (0, 1)}, knowledge = []\<rparr>"
  have h: "set (iter_cells runtime0 (safes ?ai)) = safes ?ai"
    by (simp add: runtime0_def)
  have "(0, 1) \<in> safes ?ai \<and> (0, 1) \<notin> moves_made ?ai" by simp
  then have ex: "\<exists>c. c \<in> safes ?ai \<and> c \<notin> moves_made ?ai" by blast
  from make_safe_move_spec [OF h] ex
  obtain c where c: "fst (make_safe_move runtime0 ?ai) = Some c" "c \<in> safes ?ai"
      "c \<notin> moves_made ?ai" and st: "snd (make_safe_move runtime0 ?ai) = ?ai"
    by blast
  from c(2,3) have "c = (0, 1)" by simp
  with c(1) st have "make_safe_move runtime0 ?ai = (Some (0, 1), ?ai)"
    by (simp add: prod_eq_iff)
  with h show ?thesis by blast
qed

section \<open>What a call leaves unchanged\<close>

lemma check_frame [simp]:
  "knowledge (check ai s) = knowledge ai"
  "height (check ai s) = height ai"
  "width (check ai s) = width ai"
  "moves_made (check ai s) = moves_made ai"
  by (simp_all add: check_def)

lemma check_mines_mono: "mines ai \<subseteq> mines (check ai s)"
  by (auto simp: check_def)

lemma check_safes_mono: "safes ai \<subseteq> safes (check ai s)"
  by (auto simp: check_def)

lemma pair_step_frame:
  "knowledge (fst (pair_step rt p st)) = knowledge (fst st)"
  "height (fst (pair_step rt p st)) = height (fst st)"
  "width (fst (pair_step rt p st)) = width (fst st)"
  "moves_made (fst (pair_step rt p st)) = moves_made (fst st)"
  by (cases p; cases st; simp add: pair_step_def)+

lemma fold_pair_step_frame:
  "knowledge (fst (fold (pair_step rt) ps st)) = knowledge (fst st) \<and>
   height (fst (fold (pair_step rt) ps st)) = height (fst st) \<and>
   width (fst (fold (pair_step rt) ps st)) = width (fst st) \<and>
   moves_made (fst (fold (pair_step rt) ps st)) = moves_made (fst st)"
  by (induction ps arbitrary: st) (simp_all add: pair_step_frame)

lemma pair_loop_frame [simp]:
  "knowledge (fst (pair_loop rt ai)) = knowledge ai"
  "height (fst (pair_loop rt ai)) = height ai"
  "width (fst (pair_loop rt ai)) = width ai"
  "moves_made (fst (pair_loop rt ai)) = moves_made ai"
  using fold_pair_step_frame [of rt _ "(ai, [], 0)"] by (simp_all add: pair_loop_def)

lemma fold_append_step_knowledge:
  "knowledge (fold append_step xs ai) = knowledge ai @ map snd xs"
  by (induction xs arbitrary: ai) (auto simp: append_step_def)

lemma fold_append_step_frame [simp]:
  "height (fold append_step xs ai) = height ai"
  "width (fold append_step xs ai) = width ai"
  "moves_made (fold append_step xs ai) = moves_made ai"
  by (induction xs arbitrary: ai) (auto simp: append_step_def)

lemma resolve_unfold:
  "resolve rt ai =
     fold append_step (iter_sentences rt (fst (snd (pair_loop rt ai)))) (fst (pair_loop rt ai))"
  by (simp add: resolve_def split: prod.splits)

lemma resolve_knowledge:
  "knowledge (resolve rt ai) =
     knowledge ai @ map snd (iter_sentences rt (fst (snd (pair_loop rt ai))))"
  by (simp add: resolve_unfold fold_append_step_knowledge)

lemma resolve_frame [simp]:
  "height (resolve rt ai) = height ai"
  "width (resolve rt ai) = width ai"
  "moves_made (resolve rt ai) = moves_made ai"
  by (simp_all add: resolve_unfold)

lemma observe_knowledge:
  "knowledge (observe ai cell cnt) =
     map (\<lambda>s. Sentence_mark_safe s cell) (knowledge ai) @
     [my_sentence (mark_safe (ai\<lparr>moves_made := insert cell (moves_made ai)\<rparr>) cell) cell cnt]"
  by (simp add: observe_def Let_def mark_safe_def)

section \<open>The sentence of an observation\<close>

lemma neighbour_step_simp:
  "neighbour_step ai cell n (S, c) =
     (if in_loop ai cell n
      then (if n \<in> mines ai then (S, c - 1)
            else if n \<notin> safes ai then (insert n S, c) else (S, c))
      else (S, c))"
  by (cases n) (auto simp: neighbour_step_def in_loop_def)

lemma card_filter_Cons:
  assumes "x \<notin> set xs"
  shows "int (card {n \<in> set (x # xs). Q n}) = int (card {n \<in> set xs. Q n}) + (if Q x then 1 else 0)"
proof (cases "Q x")
  case True
  then have "{n \<in> set (x # xs). Q n} = insert x {n \<in> set xs. Q n}" by auto
  moreover have "x \<notin> {n \<in> set xs. Q n}" using assms by simp
  moreover have "finite {n \<in> set xs. Q n}" by simp
  ultimately show ?thesis using True by (simp del: set_simps)
next
  case False
  then have "{n \<in> set (x # xs). Q n} = {n \<in> set xs. Q n}" by auto
  with False show ?thesis by simp
qed

lemma fold_neighbour_step:
  assumes "distinct xs"
  shows "fold (neighbour_step ai cell) xs (S, c) =
           (S \<union> {n \<in> set xs. in_loop ai cell n \<and> n \<notin> mines ai \<and> n \<notin> safes ai},
            c - int (card {n \<in> set xs. in_loop ai cell n \<and> n \<in> mines ai}))"
  using assms
proof (induction xs arbitrary: S c)
  case Nil
  then show ?case by simp
next
  case (Cons x xs)
  from Cons.prems have nin: "x \<notin> set xs" and d: "distinct xs" by simp_all
  note IH = Cons.IH [OF d]
  note cd = card_filter_Cons [OF nin, of "\<lambda>n. in_loop ai cell n \<and> n \<in> mines ai"]
  show ?case
    by (simp only: fold_simps neighbour_step_simp IH cd split: if_splits) auto
qed

lemma distinct_around: "distinct (around cell)"
  by (cases cell) (simp add: around_def)

lemma around_in_loop:
  "n \<in> set (around cell) \<and> in_loop ai cell n \<longleftrightarrow> n \<in> neighbours (height ai) (width ai) cell"
  by (cases n; cases cell) (auto simp: around_def in_loop_def neighbours_def)

lemma my_sentence_spec:
  "my_sentence ai cell cnt =
     \<lparr>cells = {n \<in> neighbours (height ai) (width ai) cell. n \<notin> mines ai \<and> n \<notin> safes ai},
      count = cnt - int (card {n \<in> neighbours (height ai) (width ai) cell. n \<in> mines ai})\<rparr>"
proof -
  have a: "{n \<in> set (around cell). in_loop ai cell n \<and> n \<notin> mines ai \<and> n \<notin> safes ai} =
           {n \<in> neighbours (height ai) (width ai) cell. n \<notin> mines ai \<and> n \<notin> safes ai}"
    using around_in_loop [of _ cell ai] by blast
  have b: "{n \<in> set (around cell). in_loop ai cell n \<and> n \<in> mines ai} =
           {n \<in> neighbours (height ai) (width ai) cell. n \<in> mines ai}"
    using around_in_loop [of _ cell ai] by blast
  have "my_sentence ai cell cnt =
          (case fold (neighbour_step ai cell) (around cell) ({}, cnt) of
             (sentence_set, cnt') \<Rightarrow> Sentence_init sentence_set cnt')"
    by (simp add: my_sentence_def)
  then show ?thesis
    by (simp add: fold_neighbour_step [OF distinct_around] a b Sentence_init_def)
qed

text \<open>
  Claim C8. The sentence that \<^verbatim>\<open>add_knowledge(cell, count)\<close> builds is appended behind the
  sentences already in \<open>knowledge\<close> and is still there when the call returns. Its cells are
  the in-bounds neighbours of \<open>cell\<close> that are in neither \<open>mines\<close> nor \<open>safes\<close> at that
  moment (\<open>safes\<close> then holds \<open>cell\<close> as well), and its count is the given count minus the
  number of in-bounds neighbours in \<open>mines\<close>.
\<close>

theorem add_knowledge_sentence:
  "length (knowledge ai) < length (knowledge (add_knowledge rt ai cell cnt)) \<and>
   knowledge (add_knowledge rt ai cell cnt) ! length (knowledge ai) =
     \<lparr>cells = {n \<in> neighbours (height ai) (width ai) cell.
                  n \<notin> mines ai \<and> n \<notin> insert cell (safes ai)},
      count = cnt - int (card {n \<in> neighbours (height ai) (width ai) cell. n \<in> mines ai})\<rparr>"
  by (simp add: add_knowledge_def resolve_knowledge observe_knowledge nth_append
        my_sentence_spec mark_safe_def)

theorem add_knowledge_sentence_witness:
  "knowledge (add_knowledge runtime0
      \<lparr>height = 2, width = 2, moves_made = {}, mines = {(0, 1)}, safes = {(1, 1)}, knowledge = []\<rparr>
      (0, 0) 2) ! 0 = \<lparr>cells = {(1, 0)}, count = 1\<rparr>"
proof -
  have a: "{n \<in> neighbours 2 2 (0, 0). n \<notin> {(0, 1)} \<and> n \<notin> insert (0, 0) {(1, 1)}} = {(1, 0)}"
    by code_simp
  have b: "card {n \<in> neighbours 2 2 (0, 0). n \<in> {(0, 1)}} = 1"
    by code_simp
  show ?thesis
    using add_knowledge_sentence [where ai = "\<lparr>height = 2, width = 2, moves_made = {}, mines = {(0, 1)},
        safes = {(1, 1)}, knowledge = []\<rparr>" and cell = "(0, 0)" and cnt = 2
        and rt = runtime0]
    unfolding MinesweeperAI.select_convs list.size a b by simp
qed

section \<open>The resolution pass\<close>

text \<open>
  \<^verbatim>\<open>__eq__\<close> is equality of the two fields, so an element is found in \<^verbatim>\<open>new_sentences\<close>
  exactly when the set holds the same value under the same hash.
\<close>

lemma Sentence_eq_iff: "Sentence_eq s t \<longleftrightarrow> s = t"
  by (cases s; cases t) (simp add: Sentence_eq_def)

lemma set_add_simp: "set_add e ns = (if e \<in> set ns then ns else ns @ [e])"
proof -
  have "(\<exists>e' \<in> set ns. fst e' = fst e \<and> Sentence_eq (snd e') (snd e)) \<longleftrightarrow> e \<in> set ns"
    by (auto simp: Sentence_eq_iff prod_eq_iff)
  then show ?thesis by (simp add: set_add_def)
qed

lemma set_set_add: "set (set_add e ns) = insert e (set ns)"
  by (auto simp: set_add_simp)

lemma pair_step_new_sentences:
  "snd ` set (fst (snd (pair_step rt p st))) = snd ` set (fst (snd st)) \<union> inferred p"
  by (cases p; cases st) (auto simp: pair_step_def inferred_def set_set_add)

lemma fold_pair_step_new_sentences:
  "snd ` set (fst (snd (fold (pair_step rt) ps st))) =
     snd ` set (fst (snd st)) \<union> (\<Union>p \<in> set ps. inferred p)"
  by (induction ps arbitrary: st) (auto simp: pair_step_new_sentences)

lemma pair_loop_new_sentences:
  "snd ` set (fst (snd (pair_loop rt ai))) =
     (\<Union>p \<in> set (knowledge ai) \<times> set (knowledge ai). inferred p)"
proof -
  have "set (concat (map (\<lambda>sentence_1. map (\<lambda>sentence_2. (sentence_1, sentence_2)) (knowledge ai))
                    (knowledge ai))) = set (knowledge ai) \<times> set (knowledge ai)"
    by auto
  then show ?thesis
    by (simp add: pair_loop_def fold_pair_step_new_sentences)
qed

lemma resolve_appended:
  assumes "iter_ok rt"
  shows "\<exists>new. knowledge (resolve rt ai) = knowledge ai @ new \<and>
               set new = (\<Union>p \<in> set (knowledge ai) \<times> set (knowledge ai). inferred p)"
proof -
  let ?ns = "fst (snd (pair_loop rt ai))"
  have "set (iter_sentences rt ?ns) = set ?ns"
    using assms by (simp add: iter_ok_def)
  then have "set (map snd (iter_sentences rt ?ns)) = snd ` set ?ns" by simp
  then show ?thesis
    using resolve_knowledge [of rt ai] pair_loop_new_sentences [of rt ai] by metis
qed

lemma append_step_mines_mono: "mines ai \<subseteq> mines (append_step e ai)"
  by (cases e) (auto simp: append_step_def check_def)

lemma fold_append_step_mines_mono: "mines ai \<subseteq> mines (fold append_step xs ai)"
proof (induction xs arbitrary: ai)
  case Nil
  show ?case by simp
next
  case (Cons e xs)
  have "mines ai \<subseteq> mines (append_step e ai)" by (rule append_step_mines_mono)
  also have "\<dots> \<subseteq> mines (fold append_step xs (append_step e ai))" by (rule Cons.IH)
  finally show ?case by simp
qed

lemma fold_append_step_known_mines:
  assumes "e \<in> set xs"
  shows "fst (known_mines (snd e)) \<subseteq> mines (fold append_step xs ai)"
  using assms
proof (induction xs arbitrary: ai)
  case Nil
  then show ?case by simp
next
  case (Cons x xs)
  show ?case
  proof (cases "e = x")
    case True
    have "fst (known_mines (snd e)) \<subseteq> mines (append_step e ai)"
      by (cases e) (auto simp: append_step_def check_def)
    also have "\<dots> \<subseteq> mines (fold append_step xs (append_step e ai))"
      by (rule fold_append_step_mines_mono)
    finally show ?thesis using True by simp
  next
    case False
    with Cons.prems have "e \<in> set xs" by simp
    from Cons.IH [OF this] show ?thesis by simp
  qed
qed

lemma resolve_known_mines:
  assumes "iter_ok rt" and "s \<in> (\<Union>p \<in> set (knowledge ai) \<times> set (knowledge ai). inferred p)"
  shows "fst (known_mines s) \<subseteq> mines (resolve rt ai)"
proof -
  let ?ns = "fst (snd (pair_loop rt ai))"
  from assms(2) have "s \<in> snd ` set ?ns" by (simp only: pair_loop_new_sentences)
  then obtain e where e: "e \<in> set ?ns" "snd e = s" by auto
  from e(1) assms(1) have "e \<in> set (iter_sentences rt ?ns)" by (simp add: iter_ok_def)
  from fold_append_step_known_mines [OF this] e(2) show ?thesis
    by (simp add: resolve_unfold)
qed

lemma inferred_subset:
  assumes "cells A \<noteq> cells B" and "cells A \<subseteq> cells B"
  shows "Sentence_init (cells B - cells A) (count B - count A) \<in> inferred (A, B)"
  using assms by (simp add: inferred_def)

lemma iter_ok_runtime0: "iter_ok runtime0"
  by (simp add: iter_ok_def runtime0_def)

lemma cells_mark_safe: "cells (Sentence_mark_safe s c) = cells s - {c}"
  by (simp add: Sentence_mark_safe_simp)

lemma count_mark_safe: "count (Sentence_mark_safe s c) = count s"
  by (simp add: Sentence_mark_safe_simp)

lemma observe_marks_safe:
  assumes "s \<in> set (knowledge ai)"
  shows "Sentence_mark_safe s cell \<in> set (knowledge (observe ai cell cnt))"
  using assms by (simp add: observe_knowledge)

lemma resolve_infers:
  assumes "iter_ok rt" and "A \<in> set (knowledge ai)" and "B \<in> set (knowledge ai)"
    and "s \<in> inferred (A, B)"
  shows "\<exists>new. knowledge (resolve rt ai) = knowledge ai @ new \<and> s \<in> set new"
    and "fst (known_mines s) \<subseteq> mines (resolve rt ai)"
proof -
  from assms(2-4)
  have inf: "s \<in> (\<Union>p \<in> set (knowledge ai) \<times> set (knowledge ai). inferred p)" by blast
  from resolve_appended [OF assms(1), of ai] inf
  show "\<exists>new. knowledge (resolve rt ai) = knowledge ai @ new \<and> s \<in> set new" by auto
  from resolve_known_mines [OF assms(1) inf]
  show "fst (known_mines s) \<subseteq> mines (resolve rt ai)" .
qed

text \<open>
  The example of the specification, for the sentences in \<open>knowledge\<close> when the resolution
  pass of a call starts: the pass derives \<open>{(0,2)} = 1\<close> and \<^verbatim>\<open>check\<close> puts \<open>(0,2)\<close> into
  \<open>mines\<close>, for every assignment of hashes and every iteration order.
\<close>

lemma resolution_at_pass_start:
  assumes "iter_ok rt"
    and A: "\<lparr>cells = {(0, 0), (0, 1)}, count = 1\<rparr> \<in> set (knowledge (observe ai cell cnt))"
    and B: "\<lparr>cells = {(0, 0), (0, 1), (0, 2)}, count = 2\<rparr> \<in> set (knowledge (observe ai cell cnt))"
  shows "\<lparr>cells = {(0, 2)}, count = 1\<rparr> \<in> set (knowledge (add_knowledge rt ai cell cnt)) \<and>
         (0, 2) \<in> mines (add_knowledge rt ai cell cnt)"
proof -
  let ?A = "\<lparr>cells = {(0, 0), (0, 1)}, count = 1\<rparr>"
  let ?B = "\<lparr>cells = {(0, 0), (0, 1), (0, 2)}, count = 2\<rparr>"
  let ?S = "\<lparr>cells = {(0, 2)}, count = 1\<rparr>"
  let ?ai = "observe ai cell cnt"
  have "(0, 2) \<in> cells ?B" "(0, 2) \<notin> cells ?A" by simp_all
  then have "cells ?A \<noteq> cells ?B" by metis
  moreover have "cells ?A \<subseteq> cells ?B" by simp
  ultimately
  have "Sentence_init (cells ?B - cells ?A) (count ?B - count ?A) \<in> inferred (?A, ?B)"
    by (rule inferred_subset)
  then have inf: "?S \<in> inferred (?A, ?B)" by (simp add: Sentence_init_def insert_Diff_if)
  from resolve_infers(1) [OF assms(1) A B inf]
  have k: "?S \<in> set (knowledge (resolve rt ?ai))" by auto
  have "fst (known_mines ?S) = {(0, 2)}" by (simp add: known_mines_def)
  with resolve_infers(2) [OF assms(1) A B inf]
  have "(0, 2) \<in> mines (resolve rt ?ai)" by simp
  with k show ?thesis by (simp add: add_knowledge_def)
qed

text \<open>
  The same from the list before the call: \<^verbatim>\<open>add_knowledge\<close> first marks its own cell safe
  in every sentence, which leaves the difference of the two sentences as it is unless the
  cell is \<open>(0,2)\<close>.
\<close>

lemma resolution_when_cell_differs:
  assumes "iter_ok rt"
    and A: "\<lparr>cells = {(0, 0), (0, 1)}, count = 1\<rparr> \<in> set (knowledge ai)"
    and B: "\<lparr>cells = {(0, 0), (0, 1), (0, 2)}, count = 2\<rparr> \<in> set (knowledge ai)"
    and cell: "cell \<noteq> (0, 2)"
  shows "\<lparr>cells = {(0, 2)}, count = 1\<rparr> \<in> set (knowledge (add_knowledge rt ai cell cnt)) \<and>
         (0, 2) \<in> mines (add_knowledge rt ai cell cnt)"
proof -
  let ?A = "Sentence_mark_safe \<lparr>cells = {(0, 0), (0, 1)}, count = 1\<rparr> cell"
  let ?B = "Sentence_mark_safe \<lparr>cells = {(0, 0), (0, 1), (0, 2)}, count = 2\<rparr> cell"
  let ?S = "\<lparr>cells = {(0, 2)}, count = 1\<rparr>"
  let ?ai = "observe ai cell cnt"
  have in_K: "?A \<in> set (knowledge ?ai)" "?B \<in> set (knowledge ?ai)"
    using A B by (simp_all only: observe_marks_safe)
  have cA: "cells ?A = {(0, 0), (0, 1)} - {cell}" and cB: "cells ?B = {(0, 0), (0, 1), (0, 2)} - {cell}"
    by (simp_all add: cells_mark_safe)
  have "(0, 2) \<in> cells ?B" "(0, 2) \<notin> cells ?A" using cell by (simp_all add: cA cB)
  then have ne: "cells ?A \<noteq> cells ?B" by metis
  have sub: "cells ?A \<subseteq> cells ?B" unfolding cA cB by blast
  have d: "cells ?B - cells ?A = {(0, 2)}" unfolding cA cB using cell by auto
  have "Sentence_init (cells ?B - cells ?A) (count ?B - count ?A) \<in> inferred (?A, ?B)"
    using ne sub by (rule inferred_subset)
  then have inf: "?S \<in> inferred (?A, ?B)"
    by (simp add: d count_mark_safe Sentence_init_def)
  from resolve_infers(1) [OF assms(1) in_K inf]
  have k: "?S \<in> set (knowledge (resolve rt ?ai))" by auto
  have "fst (known_mines ?S) = {(0, 2)}" by (simp add: known_mines_def)
  with resolve_infers(2) [OF assms(1) in_K inf]
  have "(0, 2) \<in> mines (resolve rt ?ai)" by simp
  with k show ?thesis by (simp add: add_knowledge_def)
qed

section \<open>Empty sentences\<close>

lemma exec_keeps_empty:
  assumes "i < length (knowledge ai)" and "cells (knowledge ai ! i) = {}"
  shows "i < length (knowledge (exec c ai)) \<and> knowledge (exec c ai) ! i = knowledge ai ! i"
proof (cases c)
  case (Pair rt call)
  show ?thesis
  proof (cases call)
    case (Mark_mine x)
    with Pair assms show ?thesis by (simp add: mark_mine_def Sentence_mark_mine_simp)
  next
    case (Mark_safe x)
    with Pair assms show ?thesis by (simp add: mark_safe_def Sentence_mark_safe_simp)
  next
    case (Add_knowledge x n)
    with Pair assms show ?thesis
      by (simp add: add_knowledge_def resolve_knowledge observe_knowledge nth_append
            Sentence_mark_safe_simp)
  next
    case Make_safe_move
    with Pair assms show ?thesis by (simp add: make_safe_move_def)
  next
    case Make_random_move
    with Pair assms show ?thesis by (simp add: make_random_move_def)
  qed
qed

lemma run_keeps_empty:
  assumes "i < length (knowledge ai)" and "cells (knowledge ai ! i) = {}"
  shows "i < length (knowledge (run cs ai)) \<and> knowledge (run cs ai) ! i = knowledge ai ! i"
  using assms
proof (induction cs arbitrary: ai)
  case Nil
  then show ?case by (simp add: run_def)
next
  case (Cons c cs)
  from exec_keeps_empty [OF Cons.prems, of c]
  have 1: "i < length (knowledge (exec c ai))" and 2: "knowledge (exec c ai) ! i = knowledge ai ! i"
    by simp_all
  from 2 Cons.prems(2) have 3: "cells (knowledge (exec c ai) ! i) = {}" by simp
  from Cons.IH [OF 1 3] 2 show ?case by (simp add: run_def)
qed

lemma inferred_empty:
  assumes "cells E = {}" and "cells B \<noteq> {}"
  shows "\<lparr>cells = cells B, count = count B - count E\<rparr> \<in> inferred (E, B)"
  using assms by (auto simp: inferred_def Sentence_init_def)

text \<open>
  Claim C10 says that whenever \<open>knowledge\<close> holds a sentence \<open>E\<close> without cells and a
  sentence \<open>B\<close> with cells, the pass of the next \<^verbatim>\<open>add_knowledge\<close> call appends a sentence
  with the cells of \<open>B\<close>. The call first marks its own cell safe, which can empty \<open>B\<close>. On
  a board of 1 row and 3 columns without mines, after \<^verbatim>\<open>add_knowledge((0, 0), 0)\<close> and
  \<^verbatim>\<open>add_knowledge((0, 1), 0)\<close> the list holds \<open>{} = 0\<close> and \<open>{(0,2)} = 0\<close>; the call
  \<^verbatim>\<open>add_knowledge((0, 2), 0)\<close> leaves only sentences without cells, and its pass appends
  nothing.
\<close>

theorem empty_sentence_duplicates_counterexample:
  "\<lparr>cells = {}, count = 0\<rparr> \<in> set (knowledge
      (run [(runtime0, Add_knowledge (0, 0) 0), (runtime0, Add_knowledge (0, 1) 0)]
         (MinesweeperAI_init 1 3))) \<and>
   \<lparr>cells = {(0, 2)}, count = 0\<rparr> \<in> set (knowledge
      (run [(runtime0, Add_knowledge (0, 0) 0), (runtime0, Add_knowledge (0, 1) 0)]
         (MinesweeperAI_init 1 3))) \<and>
   knowledge (add_knowledge runtime0
      (run [(runtime0, Add_knowledge (0, 0) 0), (runtime0, Add_knowledge (0, 1) 0)]
         (MinesweeperAI_init 1 3)) (0, 2) 0) =
   knowledge (observe
      (run [(runtime0, Add_knowledge (0, 0) 0), (runtime0, Add_knowledge (0, 1) 0)]
         (MinesweeperAI_init 1 3)) (0, 2) 0) \<and>
   knowledge (add_knowledge runtime0
      (run [(runtime0, Add_knowledge (0, 0) 0), (runtime0, Add_knowledge (0, 1) 0)]
         (MinesweeperAI_init 1 3)) (0, 2) 0) =
   [\<lparr>cells = {}, count = 0\<rparr>, \<lparr>cells = {}, count = 0\<rparr>, \<lparr>cells = {}, count = 0\<rparr>,
    \<lparr>cells = {}, count = 0\<rparr>, \<lparr>cells = {}, count = 0\<rparr>]"
  by code_simp

text \<open>
  Claim C10, amended. A sentence with no cells stays at its place in \<open>knowledge\<close>,
  unchanged, through every sequence of calls. Whenever \<open>knowledge\<close> holds a sentence \<open>E\<close>
  without cells and a sentence \<open>B\<close> that has a cell other than the cell of the next
  \<^verbatim>\<open>add_knowledge\<close> call, the pass of that call appends a sentence with the cells that \<open>B\<close>
  has left and the count of \<open>B\<close> minus the count of \<open>E\<close>; when the count of \<open>E\<close> is 0 this
  sentence is value-equal to \<open>B\<close> as it stands in the list, so the list holds it twice.
\<close>

theorem empty_sentence_duplicates:
  "(\<forall>i < length (knowledge ai). cells (knowledge ai ! i) = {} \<longrightarrow>
      i < length (knowledge (run cs ai)) \<and> knowledge (run cs ai) ! i = knowledge ai ! i) \<and>
   (iter_ok rt \<and> E \<in> set (knowledge ai) \<and> B \<in> set (knowledge ai) \<and>
    cells E = {} \<and> cells B - {cell} \<noteq> {} \<longrightarrow>
      (\<exists>new. knowledge (add_knowledge rt ai cell cnt) = knowledge (observe ai cell cnt) @ new \<and>
             \<lparr>cells = cells B - {cell}, count = count B - count E\<rparr> \<in> set new \<and>
             (count E = 0 \<longrightarrow>
                \<lparr>cells = cells B - {cell}, count = count B - count E\<rparr>
                  \<in> set (knowledge (observe ai cell cnt)))))"
proof -
  have keep: "\<forall>i < length (knowledge ai). cells (knowledge ai ! i) = {} \<longrightarrow>
      i < length (knowledge (run cs ai)) \<and> knowledge (run cs ai) ! i = knowledge ai ! i"
    using run_keeps_empty by blast
  have dup: "\<exists>new. knowledge (add_knowledge rt ai cell cnt) = knowledge (observe ai cell cnt) @ new \<and>
             \<lparr>cells = cells B - {cell}, count = count B - count E\<rparr> \<in> set new \<and>
             (count E = 0 \<longrightarrow>
                \<lparr>cells = cells B - {cell}, count = count B - count E\<rparr>
                  \<in> set (knowledge (observe ai cell cnt)))"
    if h: "iter_ok rt \<and> E \<in> set (knowledge ai) \<and> B \<in> set (knowledge ai) \<and>
           cells E = {} \<and> cells B - {cell} \<noteq> {}"
  proof -
    let ?ai = "observe ai cell cnt"
    let ?B = "Sentence_mark_safe B cell"
    let ?S = "\<lparr>cells = cells B - {cell}, count = count B - count E\<rparr>"
    from h have "Sentence_mark_safe E cell = E" by (simp add: Sentence_mark_safe_simp)
    with h observe_marks_safe [of E ai cell cnt] have E: "E \<in> set (knowledge ?ai)" by simp
    from h have B: "?B \<in> set (knowledge ?ai)" by (simp only: observe_marks_safe)
    have cB: "cells ?B = cells B - {cell}" "count ?B = count B"
      by (simp_all add: cells_mark_safe count_mark_safe)
    from h cB have "\<lparr>cells = cells ?B, count = count ?B - count E\<rparr> \<in> inferred (E, ?B)"
      by (intro inferred_empty) simp_all
    then have inf: "?S \<in> inferred (E, ?B)" by (simp add: cB)
    from resolve_infers(1) [OF _ E B inf] h obtain new where
      new: "knowledge (resolve rt ?ai) = knowledge ?ai @ new" "?S \<in> set new"
      by blast
    have "count E = 0 \<longrightarrow> ?S \<in> set (knowledge ?ai)"
    proof
      assume "count E = 0"
      then have "?S = ?B" using cB by simp
      with B show "?S \<in> set (knowledge ?ai)" by simp
    qed
    with new show ?thesis unfolding add_knowledge_def by blast
  qed
  from keep dup show ?thesis by blast
qed

theorem empty_sentence_duplicates_witness:
  "1 < length (knowledge game_1x4) \<and> cells (knowledge game_1x4 ! 1) = {} \<and>
   1 < length (knowledge (run [(runtime0, Add_knowledge (0, 3) 1)] game_1x4)) \<and>
   knowledge (run [(runtime0, Add_knowledge (0, 3) 1)] game_1x4) ! 1 = knowledge game_1x4 ! 1 \<and>
   iter_ok runtime0 \<and>
   \<lparr>cells = {}, count = 0\<rparr> \<in> set (knowledge game_1x4) \<and>
   \<lparr>cells = {(0, 2)}, count = 1\<rparr> \<in> set (knowledge game_1x4) \<and>
   cells \<lparr>cells = {(0, 2)}, count = 1\<rparr> - {(0, 3)} \<noteq> {} \<and>
   \<lparr>cells = {(0, 2)}, count = 1\<rparr> \<in>
     set (drop (length (knowledge (observe game_1x4 (0, 3) 1)))
            (knowledge (add_knowledge runtime0 game_1x4 (0, 3) 1))) \<and>
   \<lparr>cells = {(0, 2)}, count = 1\<rparr> \<in> set (knowledge (observe game_1x4 (0, 3) 1))"
proof -
  have a: "1 < length (knowledge game_1x4)" by code_simp
  have b: "cells (knowledge game_1x4 ! 1) = {}" by code_simp
  have e: "\<lparr>cells = {}, count = 0\<rparr> \<in> set (knowledge game_1x4)"
    by code_simp
  have f: "\<lparr>cells = {(0, 2)}, count = 1\<rparr> \<in> set (knowledge game_1x4)"
    by code_simp
  have g: "cells \<lparr>cells = {(0, 2)}, count = 1\<rparr> - {(0, 3)} \<noteq> {}" by simp
  have g': "cells \<lparr>cells = {(0, 2)}, count = 1\<rparr> - {(0, 3)} = {(0, 2)}" by simp
  note t = empty_sentence_duplicates [where ai = game_1x4 and rt = runtime0 and cell = "(0, 3)"
      and cnt = 1 and E = "\<lparr>cells = {}, count = 0\<rparr>" and B = "\<lparr>cells = {(0, 2)}, count = 1\<rparr>"
      and cs = "[(runtime0, Add_knowledge (0, 3) 1)]"]
  from t a b have c: "1 < length (knowledge (run [(runtime0, Add_knowledge (0, 3) 1)] game_1x4)) \<and>
      knowledge (run [(runtime0, Add_knowledge (0, 3) 1)] game_1x4) ! 1 = knowledge game_1x4 ! 1"
    by blast
  from t iter_ok_runtime0 e f g obtain new where
    "knowledge (add_knowledge runtime0 game_1x4 (0, 3) 1) =
       knowledge (observe game_1x4 (0, 3) 1) @ new"
    "\<lparr>cells = cells \<lparr>cells = {(0, 2)}, count = 1\<rparr> - {(0, 3)},
      count = count \<lparr>cells = {(0, 2)}, count = 1\<rparr> - count \<lparr>cells = {}, count = 0\<rparr>\<rparr> \<in> set new"
    "\<lparr>cells = cells \<lparr>cells = {(0, 2)}, count = 1\<rparr> - {(0, 3)},
      count = count \<lparr>cells = {(0, 2)}, count = 1\<rparr> - count \<lparr>cells = {}, count = 0\<rparr>\<rparr>
       \<in> set (knowledge (observe game_1x4 (0, 3) 1))"
    by auto
  then have d: "\<lparr>cells = {(0, 2)}, count = 1\<rparr> \<in>
     set (drop (length (knowledge (observe game_1x4 (0, 3) 1)))
            (knowledge (add_knowledge runtime0 game_1x4 (0, 3) 1)))"
    and d': "\<lparr>cells = {(0, 2)}, count = 1\<rparr> \<in> set (knowledge (observe game_1x4 (0, 3) 1))"
    by simp_all
  from a b c d d' e f g iter_ok_runtime0 show ?thesis by blast
qed

section \<open>Two defects\<close>

text \<open>
  Claim C2 says that no cell of a sentence in \<open>knowledge\<close> is in \<open>safes\<close> or \<open>mines\<close>.
  \<^verbatim>\<open>mark_mine\<close> and \<^verbatim>\<open>mark_safe\<close> remove the cell from every sentence, as their docstrings
  say; \<^verbatim>\<open>check\<close> adds to \<open>mines\<close> and \<open>safes\<close> without going through them. On a board of
  1 row and 2 columns, after \<^verbatim>\<open>add_knowledge((0, 0), 1)\<close> the cell \<open>(0, 1)\<close> is in \<open>mines\<close>
  and still in the only sentence of \<open>knowledge\<close>.
\<close>

theorem check_does_not_propagate:
  "mines (add_knowledge runtime0 (MinesweeperAI_init 1 2) (0, 0) 1) = {(0, 1)} \<and>
   knowledge (add_knowledge runtime0 (MinesweeperAI_init 1 2) (0, 0) 1) =
     [\<lparr>cells = {(0, 1)}, count = 1\<rparr>]"
  by code_simp

text \<open>
  Claim C3 says that value-equal inferred sentences are collected once. The hash of a
  sentence is the hash of its default \<^verbatim>\<open>repr\<close>, which differs between two objects that
  are alive together, so \<^verbatim>\<open>new_sentences\<close> keeps both. On a board of 1 row and 3 columns,
  after \<^verbatim>\<open>add_knowledge((0, 1), 1)\<close> and \<^verbatim>\<open>add_knowledge((0, 0), 0)\<close> the second pass has
  appended \<open>{(0,2)} = 1\<close> twice.
\<close>

theorem value_equal_sentences_appended:
  "knowledge (run [(runtime0, Add_knowledge (0, 1) 1), (runtime0, Add_knowledge (0, 0) 0)]
                (MinesweeperAI_init 1 3)) =
     [\<lparr>cells = {(0, 2)}, count = 1\<rparr>, \<lparr>cells = {}, count = 0\<rparr>,
      \<lparr>cells = {(0, 2)}, count = 1\<rparr>, \<lparr>cells = {(0, 2)}, count = 1\<rparr>]"
  by code_simp

text \<open>
  The same holds for every runtime that gives the two sentences of that pass different
  hashes, whatever the iteration order. The state below is the engine after the first
  of the two calls.
\<close>

lemma first_call_1x3:
  "add_knowledge runtime0 (MinesweeperAI_init 1 3) (0, 1) 1 =
   \<lparr>height = 1, width = 3, moves_made = {(0, 1)}, mines = {}, safes = {(0, 1)},
    knowledge = [\<lparr>cells = {(0, 0), (0, 2)}, count = 1\<rparr>]\<rparr>"
  by code_simp

lemma map_snd_constant:
  assumes "\<forall>e \<in> set xs. snd e = s"
  shows "map snd xs = replicate (length xs) s"
  using assms by (induction xs) simp_all

lemma observe_1x3:
  "observe \<lparr>height = 1, width = 3, moves_made = {(0, 1)}, mines = {}, safes = {(0, 1)},
            knowledge = [\<lparr>cells = {(0, 0), (0, 2)}, count = 1\<rparr>]\<rparr> (0, 0) 0 =
   \<lparr>height = 1, width = 3, moves_made = {(0, 0), (0, 1)}, mines = {}, safes = {(0, 0), (0, 1)},
    knowledge = [\<lparr>cells = {(0, 2)}, count = 1\<rparr>, \<lparr>cells = {}, count = 0\<rparr>]\<rparr>"
  by code_simp

lemma pair_loop_1x3:
  assumes "repr_hash rt 0 \<noteq> repr_hash rt 1"
  shows "fst (snd (pair_loop rt
     \<lparr>height = 1, width = 3, moves_made = {(0, 0), (0, 1)}, mines = {}, safes = {(0, 0), (0, 1)},
      knowledge = [\<lparr>cells = {(0, 2)}, count = 1\<rparr>, \<lparr>cells = {}, count = 0\<rparr>]\<rparr>)) =
     [(repr_hash rt 0, \<lparr>cells = {(0, 2)}, count = 1\<rparr>),
      (repr_hash rt 1, \<lparr>cells = {(0, 2)}, count = 1\<rparr>)]"
  using assms by (simp add: pair_loop_def pair_step_def set_add_simp Sentence_init_def)

lemma duplicates_when_hashes_differ:
  assumes "iter_ok rt" and "repr_hash rt 0 \<noteq> repr_hash rt 1"
  shows "knowledge (add_knowledge rt
           \<lparr>height = 1, width = 3, moves_made = {(0, 1)}, mines = {}, safes = {(0, 1)},
            knowledge = [\<lparr>cells = {(0, 0), (0, 2)}, count = 1\<rparr>]\<rparr> (0, 0) 0) =
         [\<lparr>cells = {(0, 2)}, count = 1\<rparr>, \<lparr>cells = {}, count = 0\<rparr>,
          \<lparr>cells = {(0, 2)}, count = 1\<rparr>, \<lparr>cells = {(0, 2)}, count = 1\<rparr>]"
proof -
  let ?S = "\<lparr>cells = {(0, 2)}, count = 1\<rparr>"
  let ?ns = "[(repr_hash rt 0, ?S), (repr_hash rt 1, ?S)]"
  from assms(1) have "set (iter_sentences rt ?ns) = set ?ns" "length (iter_sentences rt ?ns) = length ?ns"
    by (simp_all add: iter_ok_def)
  then have "\<forall>e \<in> set (iter_sentences rt ?ns). snd e = ?S" "length (iter_sentences rt ?ns) = 2"
    by auto
  from map_snd_constant [OF this(1)] this(2)
  have "map snd (iter_sentences rt ?ns) = [?S, ?S]" by (simp add: numeral_2_eq_2)
  then show ?thesis
    by (simp add: add_knowledge_def resolve_knowledge observe_1x3 pair_loop_1x3 [OF assms(2)])
qed

section \<open>Growth of mines and safes\<close>

lemma check_grows: "mines ai \<subseteq> mines (check ai s) \<and> safes ai \<subseteq> safes (check ai s)"
  by (auto simp: check_def)

lemma pair_step_grows:
  "mines (fst st) \<subseteq> mines (fst (pair_step rt p st)) \<and>
   safes (fst st) \<subseteq> safes (fst (pair_step rt p st))"
proof (cases p; cases st)
  fix s1 s2 ai ns
  assume p: "p = (s1, s2)" and st: "st = (ai, ns)"
  have "mines ai \<subseteq> mines (check (check ai s1) s2) \<and> safes ai \<subseteq> safes (check (check ai s1) s2)"
    using check_grows [of ai s1] check_grows [of "check ai s1" s2] by blast
  then show ?thesis
    by (cases ns) (simp add: p st pair_step_def)
qed

lemma fold_pair_step_grows:
  "mines (fst st) \<subseteq> mines (fst (fold (pair_step rt) ps st)) \<and>
   safes (fst st) \<subseteq> safes (fst (fold (pair_step rt) ps st))"
proof (induction ps arbitrary: st)
  case Nil
  show ?case by simp
next
  case (Cons p ps)
  from pair_step_grows [of st rt p] Cons.IH [of "pair_step rt p st"]
  show ?case by auto
qed

lemma pair_loop_grows:
  "mines ai \<subseteq> mines (fst (pair_loop rt ai)) \<and> safes ai \<subseteq> safes (fst (pair_loop rt ai))"
  using fold_pair_step_grows [of "(ai, [], 0)" rt] by (simp add: pair_loop_def)

lemma fold_append_step_grows:
  "mines ai \<subseteq> mines (fold append_step xs ai) \<and> safes ai \<subseteq> safes (fold append_step xs ai)"
proof (induction xs arbitrary: ai)
  case Nil
  show ?case by simp
next
  case (Cons e xs)
  have "mines ai \<subseteq> mines (append_step e ai) \<and> safes ai \<subseteq> safes (append_step e ai)"
    by (cases e) (auto simp: append_step_def check_def)
  with Cons.IH [of "append_step e ai"] show ?case by auto
qed

lemma resolve_grows:
  "mines ai \<subseteq> mines (resolve rt ai) \<and> safes ai \<subseteq> safes (resolve rt ai)"
  using pair_loop_grows [of ai rt]
    fold_append_step_grows [of "fst (pair_loop rt ai)" "iter_sentences rt (fst (snd (pair_loop rt ai)))"]
  by (simp only: resolve_unfold) blast

lemma observe_grows:
  "mines ai \<subseteq> mines (observe ai cell cnt) \<and> safes ai \<subseteq> safes (observe ai cell cnt)"
proof -
  let ?ai2 = "mark_safe (ai\<lparr>moves_made := insert cell (moves_made ai)\<rparr>) cell"
  let ?s = "my_sentence ?ai2 cell cnt"
  have "observe ai cell cnt = check (?ai2\<lparr>knowledge := knowledge ?ai2 @ [?s]\<rparr>) ?s"
    by (simp add: observe_def Let_def)
  moreover have "mines ai \<subseteq> mines (?ai2\<lparr>knowledge := knowledge ?ai2 @ [?s]\<rparr>) \<and>
                 safes ai \<subseteq> safes (?ai2\<lparr>knowledge := knowledge ?ai2 @ [?s]\<rparr>)"
    by (auto simp: mark_safe_def)
  ultimately show ?thesis
    using check_grows [of "?ai2\<lparr>knowledge := knowledge ?ai2 @ [?s]\<rparr>" ?s] by auto
qed

lemma exec_grows: "mines ai \<subseteq> mines (exec c ai) \<and> safes ai \<subseteq> safes (exec c ai)"
proof (cases c)
  case (Pair rt call)
  show ?thesis
  proof (cases call)
    case (Add_knowledge x n)
    with Pair observe_grows [of ai x n] resolve_grows [of "observe ai x n" rt]
    show ?thesis by (auto simp: add_knowledge_def)
  qed (use Pair in \<open>auto simp: mark_mine_def mark_safe_def make_safe_move_def make_random_move_def\<close>)
qed

lemma run_append: "run (cs @ cs') ai = run cs' (run cs ai)"
  by (simp add: run_def)

lemma run_grows: "mines ai \<subseteq> mines (run cs ai) \<and> safes ai \<subseteq> safes (run cs ai)"
proof (induction cs arbitrary: ai)
  case Nil
  show ?case by (simp add: run_def)
next
  case (Cons c cs)
  from exec_grows [of ai c] Cons.IH [of "exec c ai"] show ?case
    by (auto simp: run_def)
qed

section \<open>Soundness on a board\<close>

text \<open>
  Every step of the engine keeps what it knows true of the board: marking removes a cell
  from a sentence and adjusts the count as the board requires, the sentence of an
  observation holds, the difference of two sentences that hold holds, and \<^verbatim>\<open>check\<close> draws
  only conclusions that hold.
\<close>

lemma holds_on_mark_mine:
  assumes "holds_on M s" and "c \<in> M"
  shows "holds_on M (Sentence_mark_mine s c)"
proof (cases "c \<in> cells s")
  case True
  from assms(1) have fin: "finite (cells s)" and cnt: "count s = int (card (cells s \<inter> M))"
    by (simp_all add: holds_on_def)
  have eq: "(cells s - {c}) \<inter> M = (cells s \<inter> M) - {c}" by blast
  have "finite (cells s \<inter> M)" using fin by simp
  moreover have "c \<in> cells s \<inter> M" using True assms(2) by simp
  ultimately have "card (cells s \<inter> M) = Suc (card ((cells s \<inter> M) - {c}))"
    by (rule card.remove)
  then have "count s - 1 = int (card ((cells s - {c}) \<inter> M))"
    using cnt eq by simp
  then show ?thesis using True fin by (simp add: Sentence_mark_mine_simp holds_on_def)
next
  case False
  with assms(1) show ?thesis by (simp add: Sentence_mark_mine_simp)
qed

lemma holds_on_mark_safe:
  assumes "holds_on M s" and "c \<notin> M"
  shows "holds_on M (Sentence_mark_safe s c)"
proof -
  have "(cells s - {c}) \<inter> M = cells s \<inter> M" using assms(2) by blast
  with assms(1) show ?thesis
    by (simp add: Sentence_mark_safe_simp holds_on_def)
qed

lemma finite_neighbours: "finite (neighbours h w cell)"
proof -
  have "neighbours h w cell \<subseteq>
          {fst cell - 1, fst cell, fst cell + 1} \<times> {snd cell - 1, snd cell, snd cell + 1}"
    by (auto simp: neighbours_def)
  then show ?thesis by (rule finite_subset) simp
qed

lemma holds_on_my_sentence:
  assumes "mines ai \<subseteq> M" and "safes ai \<inter> M = {}"
    and "cnt = int (card (neighbours (height ai) (width ai) cell \<inter> M))"
  shows "holds_on M (my_sentence ai cell cnt)"
proof -
  let ?N = "neighbours (height ai) (width ai) cell"
  let ?C = "{n \<in> ?N. n \<notin> mines ai \<and> n \<notin> safes ai}"
  let ?K = "{n \<in> ?N. n \<in> mines ai}"
  have finN: "finite ?N" by (rule finite_neighbours)
  have eq: "?C \<inter> M = (?N \<inter> M) - ?K" using assms(1,2) by blast
  have sub: "?K \<subseteq> ?N \<inter> M" using assms(1) by blast
  have finK: "finite ?K" using finN by simp
  have "card ((?N \<inter> M) - ?K) = card (?N \<inter> M) - card ?K"
    using finK sub by (rule card_Diff_subset)
  moreover have "card ?K \<le> card (?N \<inter> M)"
    using sub finN by (simp add: card_mono)
  ultimately have "int (card (?C \<inter> M)) = int (card (?N \<inter> M)) - int (card ?K)"
    using eq by simp
  moreover have "finite ?C" using finN by simp
  ultimately show ?thesis
    using assms(3) by (simp add: my_sentence_spec holds_on_def)
qed

lemma sound_check:
  assumes "sound M ai" and "holds_on M s"
  shows "sound M (check ai s)"
proof -
  from assms(2) have fin: "finite (cells s)" and cnt: "count s = int (card (cells s \<inter> M))"
    by (simp_all add: holds_on_def)
  have km: "fst (known_mines s) \<subseteq> M"
  proof (cases "count s = int (card (cells s))")
    case True
    with cnt have "card (cells s \<inter> M) = card (cells s)" by simp
    moreover have "cells s \<inter> M \<subseteq> cells s" by blast
    ultimately have "cells s \<inter> M = cells s" using fin by (simp add: card_subset_eq)
    then have "cells s \<subseteq> M" by blast
    then show ?thesis by (simp add: known_mines_def)
  next
    case False
    then show ?thesis by (simp add: known_mines_def)
  qed
  have ks: "fst (known_safes s) \<inter> M = {}"
  proof (cases "count s = 0")
    case True
    with cnt fin have "cells s \<inter> M = {}" by simp
    then show ?thesis by (simp add: known_safes_def)
  next
    case False
    then show ?thesis by (simp add: known_safes_def)
  qed
  from assms(1) km ks show ?thesis
    by (auto simp: sound_def check_def)
qed

lemma holds_on_inferred:
  assumes "holds_on M s1" and "holds_on M s2" and "s \<in> inferred (s1, s2)"
  shows "holds_on M s"
proof -
  have diff: "holds_on M (Sentence_init (cells B - cells A) (count B - count A))"
    if A: "holds_on M A" and B: "holds_on M B" and sub: "cells A \<subseteq> cells B" for A B
  proof -
    from A B have fin: "finite (cells A)" "finite (cells B)"
      and cnt: "count A = int (card (cells A \<inter> M))" "count B = int (card (cells B \<inter> M))"
      by (simp_all add: holds_on_def)
    have eq: "(cells B - cells A) \<inter> M = (cells B \<inter> M) - (cells A \<inter> M)" by blast
    have s: "cells A \<inter> M \<subseteq> cells B \<inter> M" using sub by blast
    have "card ((cells B \<inter> M) - (cells A \<inter> M)) = card (cells B \<inter> M) - card (cells A \<inter> M)"
      using fin(1) s by (simp add: card_Diff_subset)
    moreover have "card (cells A \<inter> M) \<le> card (cells B \<inter> M)"
      using s fin(2) by (simp add: card_mono)
    ultimately have "int (card ((cells B - cells A) \<inter> M)) = count B - count A"
      using eq cnt by simp
    with fin(2) show ?thesis by (simp add: holds_on_def Sentence_init_def)
  qed
  from assms(3) show ?thesis
    using diff [OF assms(1) assms(2)] diff [OF assms(2) assms(1)]
    by (auto simp: inferred_def split: if_splits)
qed

lemma sound_pair_step:
  assumes "sound M (fst st)" and "holds_on M (fst p)" and "holds_on M (snd p)"
  shows "sound M (fst (pair_step rt p st))"
proof (cases p; cases st)
  fix s1 s2 ai ns
  assume p: "p = (s1, s2)" and st: "st = (ai, ns)"
  with assms have "sound M (check (check ai s1) s2)"
    by (simp add: sound_check)
  with assms(1) st show ?thesis
    by (cases ns) (simp add: p pair_step_def)
qed

lemma sound_fold_pair_step:
  assumes "sound M (fst st)" and "\<forall>p \<in> set ps. holds_on M (fst p) \<and> holds_on M (snd p)"
  shows "sound M (fst (fold (pair_step rt) ps st))"
  using assms
proof (induction ps arbitrary: st)
  case Nil
  then show ?case by simp
next
  case (Cons p ps)
  from Cons.prems have "sound M (fst (pair_step rt p st))"
    by (simp add: sound_pair_step)
  moreover from Cons.prems(2) have "\<forall>p \<in> set ps. holds_on M (fst p) \<and> holds_on M (snd p)"
    by simp
  ultimately show ?case using Cons.IH by simp
qed

lemma sound_pair_loop:
  assumes "sound M ai"
  shows "sound M (fst (pair_loop rt ai))"
proof -
  from assms have "\<forall>s \<in> set (knowledge ai). holds_on M s" by (simp add: sound_def)
  then have "\<forall>p \<in> set (concat (map (\<lambda>sentence_1. map (\<lambda>sentence_2. (sentence_1, sentence_2))
                 (knowledge ai)) (knowledge ai))). holds_on M (fst p) \<and> holds_on M (snd p)"
    by auto
  with assms show ?thesis
    unfolding pair_loop_def by (intro sound_fold_pair_step) simp_all
qed

lemma sound_fold_append_step:
  assumes "sound M ai" and "\<forall>e \<in> set xs. holds_on M (snd e)"
  shows "sound M (fold append_step xs ai)"
  using assms
proof (induction xs arbitrary: ai)
  case Nil
  then show ?case by simp
next
  case (Cons e xs)
  from Cons.prems have h: "holds_on M (snd e)" by simp
  with Cons.prems(1) have "sound M (ai\<lparr>knowledge := knowledge ai @ [snd e]\<rparr>)"
    by (simp add: sound_def)
  from sound_check [OF this h] have "sound M (append_step e ai)"
    by (cases e) (simp add: append_step_def)
  moreover from Cons.prems(2) have "\<forall>e \<in> set xs. holds_on M (snd e)" by simp
  ultimately show ?case using Cons.IH by simp
qed

lemma sound_resolve:
  assumes "sound M ai" and "iter_ok rt"
  shows "sound M (resolve rt ai)"
proof -
  let ?ns = "fst (snd (pair_loop rt ai))"
  from assms(1) have K: "\<forall>s \<in> set (knowledge ai). holds_on M s" by (simp add: sound_def)
  have "\<forall>s \<in> snd ` set ?ns. holds_on M s"
    unfolding pair_loop_new_sentences using K holds_on_inferred by blast
  moreover from assms(2) have "set (iter_sentences rt ?ns) = set ?ns" by (simp add: iter_ok_def)
  ultimately have "\<forall>e \<in> set (iter_sentences rt ?ns). holds_on M (snd e)" by simp
  with sound_pair_loop [OF assms(1), of rt] show ?thesis
    by (simp only: resolve_unfold sound_fold_append_step)
qed

lemma sound_mark_mine:
  assumes "sound M ai" and "c \<in> M"
  shows "sound M (mark_mine ai c)"
  using assms by (auto simp: sound_def mark_mine_def holds_on_mark_mine)

lemma sound_mark_safe:
  assumes "sound M ai" and "c \<notin> M"
  shows "sound M (mark_safe ai c)"
  using assms by (auto simp: sound_def mark_safe_def holds_on_mark_safe)

lemma sound_observe:
  assumes "sound M ai" and "cell \<notin> M"
    and "cnt = int (card (neighbours (height ai) (width ai) cell \<inter> M))"
  shows "sound M (observe ai cell cnt)"
proof -
  let ?ai2 = "mark_safe (ai\<lparr>moves_made := insert cell (moves_made ai)\<rparr>) cell"
  let ?s = "my_sentence ?ai2 cell cnt"
  from assms(1) have "sound M (ai\<lparr>moves_made := insert cell (moves_made ai)\<rparr>)"
    by (simp add: sound_def)
  from sound_mark_safe [OF this assms(2)] have s2: "sound M ?ai2" .
  have hw: "height ?ai2 = height ai" "width ?ai2 = width ai" by (simp_all add: mark_safe_def)
  from s2 have "mines ?ai2 \<subseteq> M" "safes ?ai2 \<inter> M = {}" by (simp_all add: sound_def)
  from holds_on_my_sentence [OF this] assms(3) hw have h: "holds_on M ?s" by simp
  with s2 have "sound M (?ai2\<lparr>knowledge := knowledge ?ai2 @ [?s]\<rparr>)" by (simp add: sound_def)
  from sound_check [OF this h] show ?thesis by (simp add: observe_def Let_def)
qed

lemma observe_size [simp]:
  "height (observe ai cell cnt) = height ai" "width (observe ai cell cnt) = width ai"
  by (simp_all add: observe_def Let_def mark_safe_def)

lemma exec_size:
  "height (exec c ai) = height ai \<and> width (exec c ai) = width ai"
proof (cases c)
  case (Pair rt call)
  then show ?thesis
    by (cases call)
       (simp_all add: mark_mine_def mark_safe_def add_knowledge_def make_safe_move_def
          make_random_move_def)
qed

lemma sound_exec:
  assumes "sound M ai" and "iter_ok (fst c)" and "agrees M (height ai) (width ai) (snd c)"
  shows "sound M (exec c ai)"
proof (cases c)
  case (Pair rt call)
  show ?thesis
  proof (cases call)
    case (Mark_mine x)
    with Pair assms show ?thesis by (simp add: sound_mark_mine)
  next
    case (Mark_safe x)
    with Pair assms show ?thesis by (simp add: sound_mark_safe)
  next
    case (Add_knowledge x n)
    with Pair assms have "sound M (observe ai x n)" by (simp add: sound_observe)
    with Pair assms(2) Add_knowledge show ?thesis
      by (simp add: add_knowledge_def sound_resolve)
  next
    case Make_safe_move
    with Pair assms show ?thesis by (simp add: make_safe_move_def)
  next
    case Make_random_move
    with Pair assms show ?thesis by (simp add: make_random_move_def)
  qed
qed

lemma sound_run:
  assumes "sound M ai"
    and "\<forall>c \<in> set cs. iter_ok (fst c) \<and> agrees M (height ai) (width ai) (snd c)"
  shows "sound M (run cs ai)"
  using assms
proof (induction cs arbitrary: ai)
  case Nil
  then show ?case by (simp add: run_def)
next
  case (Cons c cs)
  from Cons.prems have "sound M (exec c ai)" by (simp add: sound_exec)
  moreover from Cons.prems(2) exec_size [of c ai]
  have "\<forall>d \<in> set cs. iter_ok (fst d) \<and> agrees M (height (exec c ai)) (width (exec c ai)) (snd d)"
    by simp
  ultimately have "sound M (run cs (exec c ai))" by (rule Cons.IH)
  then show ?case by (simp add: run_def)
qed

lemma sound_init: "sound M (MinesweeperAI_init h w)"
  by (simp add: sound_def MinesweeperAI_init_def)

text \<open>
  Claim C1 says that \<open>safes\<close> and \<open>mines\<close> are disjoint after every sequence of calls.
  Nothing in the engine compares the two sets: \<^verbatim>\<open>mark_mine((0, 0))\<close> followed by
  \<^verbatim>\<open>mark_safe((0, 0))\<close> leaves the cell in both.
\<close>

theorem mines_safes_disjoint_counterexample:
  "safes (run [(runtime0, Mark_mine (0, 0)), (runtime0, Mark_safe (0, 0))] (MinesweeperAI_init 1 1)) \<inter>
   mines (run [(runtime0, Mark_mine (0, 0)), (runtime0, Mark_safe (0, 0))] (MinesweeperAI_init 1 1)) =
   {(0, 0)}"
  by code_simp

text \<open>
  Claim C1, amended. Across every sequence of calls \<open>mines\<close> and \<open>safes\<close> only grow: what
  is in them after a sequence \<open>cs\<close> is in them after every continuation \<open>cs @ cs'\<close>. After
  every sequence of calls that agree with one board, started from a new engine, the two
  sets are disjoint.
\<close>

theorem mines_safes_grow_disjoint_on_board:
  "mines (run cs ai) \<subseteq> mines (run (cs @ cs') ai) \<and>
   safes (run cs ai) \<subseteq> safes (run (cs @ cs') ai) \<and>
   ((\<forall>c \<in> set cs. iter_ok (fst c) \<and> agrees M h w (snd c)) \<longrightarrow>
      safes (run cs (MinesweeperAI_init h w)) \<inter> mines (run cs (MinesweeperAI_init h w)) = {})"
proof -
  have grow: "mines (run cs ai) \<subseteq> mines (run (cs @ cs') ai) \<and>
              safes (run cs ai) \<subseteq> safes (run (cs @ cs') ai)"
    using run_grows [of "run cs ai" cs'] by (simp add: run_append)
  have disj: "safes (run cs (MinesweeperAI_init h w)) \<inter> mines (run cs (MinesweeperAI_init h w)) = {}"
    if agree: "\<forall>c \<in> set cs. iter_ok (fst c) \<and> agrees M h w (snd c)"
  proof -
    have "height (MinesweeperAI_init h w) = h" "width (MinesweeperAI_init h w) = w"
      by (simp_all add: MinesweeperAI_init_def)
    with agree have "\<forall>c \<in> set cs. iter_ok (fst c) \<and>
        agrees M (height (MinesweeperAI_init h w)) (width (MinesweeperAI_init h w)) (snd c)"
      by simp
    from sound_run [OF sound_init this] show ?thesis
      by (auto simp: sound_def)
  qed
  from grow disj show ?thesis by blast
qed

theorem mines_safes_grow_disjoint_on_board_witness:
  "iter_ok runtime0 \<and>
   agrees {(0, 0), (0, 2)} 2 3 (Add_knowledge (1, 1) 2) \<and>
   agrees {(0, 0), (0, 2)} 2 3 (Add_knowledge (1, 0) 1) \<and>
   agrees {(0, 0), (0, 2)} 2 3 (Add_knowledge (1, 2) 1) \<and>
   (0, 2) \<in> mines (run [(runtime0, Add_knowledge (1, 1) 2), (runtime0, Add_knowledge (1, 0) 1),
                         (runtime0, Add_knowledge (1, 2) 1)] (MinesweeperAI_init 2 3)) \<and>
   (0, 1) \<in> safes (run [(runtime0, Add_knowledge (1, 1) 2), (runtime0, Add_knowledge (1, 0) 1),
                         (runtime0, Add_knowledge (1, 2) 1)] (MinesweeperAI_init 2 3)) \<and>
   safes (run [(runtime0, Add_knowledge (1, 1) 2), (runtime0, Add_knowledge (1, 0) 1),
               (runtime0, Add_knowledge (1, 2) 1)] (MinesweeperAI_init 2 3)) \<inter>
   mines (run [(runtime0, Add_knowledge (1, 1) 2), (runtime0, Add_knowledge (1, 0) 1),
               (runtime0, Add_knowledge (1, 2) 1)] (MinesweeperAI_init 2 3)) = {} \<and>
   mines (run [(runtime0, Add_knowledge (1, 1) 2), (runtime0, Add_knowledge (1, 0) 1),
               (runtime0, Add_knowledge (1, 2) 1)] (MinesweeperAI_init 2 3)) \<subseteq>
   mines (run ([(runtime0, Add_knowledge (1, 1) 2), (runtime0, Add_knowledge (1, 0) 1),
                (runtime0, Add_knowledge (1, 2) 1)] @ [(runtime0, Mark_safe (0, 1))])
            (MinesweeperAI_init 2 3)) \<and>
   safes (run [(runtime0, Add_knowledge (1, 1) 2), (runtime0, Add_knowledge (1, 0) 1),
               (runtime0, Add_knowledge (1, 2) 1)] (MinesweeperAI_init 2 3)) \<subseteq>
   safes (run ([(runtime0, Add_knowledge (1, 1) 2), (runtime0, Add_knowledge (1, 0) 1),
                (runtime0, Add_knowledge (1, 2) 1)] @ [(runtime0, Mark_safe (0, 1))])
            (MinesweeperAI_init 2 3))"
proof -
  let ?cs = "[(runtime0, Add_knowledge (1, 1) 2), (runtime0, Add_knowledge (1, 0) 1),
              (runtime0, Add_knowledge (1, 2) 1)]"
  let ?M = "{(0, 0), (0, 2)} :: cell set"
  have a1: "agrees ?M 2 3 (Add_knowledge (1, 1) 2)" by code_simp
  have a2: "agrees ?M 2 3 (Add_knowledge (1, 0) 1)" by code_simp
  have a3: "agrees ?M 2 3 (Add_knowledge (1, 2) 1)" by code_simp
  have m: "(0, 2) \<in> mines (run ?cs (MinesweeperAI_init 2 3))" by code_simp
  have s: "(0, 1) \<in> safes (run ?cs (MinesweeperAI_init 2 3))" by code_simp
  have all: "\<forall>c \<in> set ?cs. iter_ok (fst c) \<and> agrees ?M 2 3 (snd c)"
    using a1 a2 a3 iter_ok_runtime0 by simp
  note t = mines_safes_grow_disjoint_on_board [where cs = ?cs and M = ?M and h = 2 and w = 3
      and ai = "MinesweeperAI_init 2 3" and cs' = "[(runtime0, Mark_safe (0, 1))]"]
  from t all have
    "safes (run ?cs (MinesweeperAI_init 2 3)) \<inter> mines (run ?cs (MinesweeperAI_init 2 3)) = {}"
    by blast
  with t a1 a2 a3 m s iter_ok_runtime0 show ?thesis by blast
qed

section \<open>The resolution example\<close>

text \<open>
  The two sentences of the example say that \<open>(0,2)\<close> is a mine on every board on which
  they hold.
\<close>

lemma example_forces_mine:
  assumes A: "holds_on M \<lparr>cells = {(0, 0), (0, 1)}, count = 1\<rparr>"
    and B: "holds_on M \<lparr>cells = {(0, 0), (0, 1), (0, 2)}, count = 2\<rparr>"
  shows "(0, 2) \<in> M"
proof (rule ccontr)
  assume "(0, 2) \<notin> M"
  then have "{(0, 0), (0, 1), (0, 2)} \<inter> M = {(0, 0), (0, 1)} \<inter> M" by blast
  moreover from A have "int (card ({(0, 0), (0, 1)} \<inter> M)) = 1" by (simp add: holds_on_def)
  moreover from B have "int (card ({(0, 0), (0, 1), (0, 2)} \<inter> M)) = 2" by (simp add: holds_on_def)
  ultimately show False by simp
qed

lemma sound_game_3x3: "sound {(0, 0), (0, 2), (2, 2)} game_3x3"
proof -
  let ?M = "{(0, 0), (0, 2), (2, 2)} :: cell set"
  have "agrees ?M 3 3 (Mark_safe (1, 1))" "agrees ?M 3 3 (Mark_safe (2, 0))"
    "agrees ?M 3 3 (Mark_safe (2, 1))" by simp_all
  moreover have "agrees ?M 3 3 (Add_knowledge (1, 0) 1)" by code_simp
  moreover have "agrees ?M 3 3 (Add_knowledge (2, 1) 1)" by code_simp
  moreover have "agrees ?M 3 3 (Add_knowledge (1, 1) 3)" by code_simp
  ultimately have "\<forall>c \<in> set [(runtime0, Mark_safe (1, 1)), (runtime0, Mark_safe (2, 0)),
                   (runtime0, Mark_safe (2, 1)), (runtime0, Add_knowledge (1, 0) 1),
                   (runtime0, Add_knowledge (2, 1) 1), (runtime0, Add_knowledge (1, 1) 3)].
      iter_ok (fst c) \<and>
      agrees ?M (height (MinesweeperAI_init 3 3)) (width (MinesweeperAI_init 3 3)) (snd c)"
    using iter_ok_runtime0 by (simp add: MinesweeperAI_init_def)
  from sound_run [OF sound_init this] show ?thesis by (simp only: game_3x3_def)
qed

text \<open>
  Claim C5. If \<open>knowledge\<close> contains \<open>{(0,0), (0,1)} = 1\<close> and \<open>{(0,0), (0,1), (0,2)} = 2\<close>,
  then after the next \<^verbatim>\<open>add_knowledge\<close> call the sentence \<open>{(0,2)} = 1\<close> is in \<open>knowledge\<close> and
  \<open>(0,2)\<close> is in \<open>mines\<close>. The call is one that \<^verbatim>\<open>add_knowledge\<close> is written for: it names a
  safe cell of a board on which what the engine knows is true, with the count of that
  board. Every engine reached from a new one by such calls is \<open>sound\<close> (lemma
  \<open>sound_run\<close>). The result holds for every assignment of hashes and every iteration
  order.
\<close>

theorem resolution_example:
  assumes "sound M ai" and "iter_ok rt"
    and call: "agrees M (height ai) (width ai) (Add_knowledge cell cnt)"
    and A: "\<lparr>cells = {(0, 0), (0, 1)}, count = 1\<rparr> \<in> set (knowledge ai)"
    and B: "\<lparr>cells = {(0, 0), (0, 1), (0, 2)}, count = 2\<rparr> \<in> set (knowledge ai)"
  shows "\<lparr>cells = {(0, 2)}, count = 1\<rparr> \<in> set (knowledge (add_knowledge rt ai cell cnt)) \<and>
         (0, 2) \<in> mines (add_knowledge rt ai cell cnt)"
proof -
  from assms(1) A B have "holds_on M \<lparr>cells = {(0, 0), (0, 1)}, count = 1\<rparr>"
    and "holds_on M \<lparr>cells = {(0, 0), (0, 1), (0, 2)}, count = 2\<rparr>"
    by (simp_all add: sound_def)
  then have "(0, 2) \<in> M" by (rule example_forces_mine)
  moreover from call have "cell \<notin> M" by simp
  ultimately have "cell \<noteq> (0, 2)" by blast
  from resolution_when_cell_differs [OF assms(2) A B this] show ?thesis .
qed

text \<open>
  In the game on 3 rows and 3 columns both sentences are in \<open>knowledge\<close>, the second one
  inferred by the pass of the last call. When the next call has appended and checked its
  own sentence, \<open>{(0,2)} = 1\<close> is not in \<open>knowledge\<close> and \<open>(0,2)\<close> is not in \<open>mines\<close>; the
  resolution pass puts them there.
\<close>

theorem resolution_example_witness:
  "sound {(0, 0), (0, 2), (2, 2)} game_3x3 \<and> iter_ok runtime0 \<and>
   agrees {(0, 0), (0, 2), (2, 2)} (height game_3x3) (width game_3x3) (Add_knowledge (2, 0) 0) \<and>
   \<lparr>cells = {(0, 0), (0, 1)}, count = 1\<rparr> \<in> set (knowledge game_3x3) \<and>
   \<lparr>cells = {(0, 0), (0, 1), (0, 2)}, count = 2\<rparr> \<in> set (knowledge game_3x3) \<and>
   \<lparr>cells = {(0, 2)}, count = 1\<rparr> \<notin> set (knowledge (observe game_3x3 (2, 0) 0)) \<and>
   (0, 2) \<notin> mines (observe game_3x3 (2, 0) 0) \<and>
   \<lparr>cells = {(0, 2)}, count = 1\<rparr> \<in> set (knowledge (add_knowledge runtime0 game_3x3 (2, 0) 0)) \<and>
   (0, 2) \<in> mines (add_knowledge runtime0 game_3x3 (2, 0) 0)"
proof -
  have c: "agrees {(0, 0), (0, 2), (2, 2)} (height game_3x3) (width game_3x3) (Add_knowledge (2, 0) 0)"
    by code_simp
  have a: "\<lparr>cells = {(0, 0), (0, 1)}, count = 1\<rparr> \<in> set (knowledge game_3x3)"
    by code_simp
  have b: "\<lparr>cells = {(0, 0), (0, 1), (0, 2)}, count = 2\<rparr> \<in> set (knowledge game_3x3)"
    by code_simp
  have n1: "\<lparr>cells = {(0, 2)}, count = 1\<rparr> \<notin> set (knowledge (observe game_3x3 (2, 0) 0))"
    by code_simp
  have n2: "(0, 2) \<notin> mines (observe game_3x3 (2, 0) 0)"
    by code_simp
  from resolution_example [OF sound_game_3x3 iter_ok_runtime0 c a b]
    sound_game_3x3 iter_ok_runtime0 c a b n1 n2
  show ?thesis by blast
qed

text \<open>
  A call on \<open>(0,2)\<close> itself is a call on a cell that the two sentences prove to be a mine.
  It removes \<open>(0,2)\<close> from the second sentence before the pass, the two cell sets are
  equal, and the pass skips the pair.
\<close>

lemma probing_the_derived_mine:
  "\<lparr>cells = {(0, 0), (0, 1)}, count = 1\<rparr> \<in> set (knowledge
      \<lparr>height = 1, width = 3, moves_made = {}, mines = {}, safes = {},
       knowledge = [\<lparr>cells = {(0, 0), (0, 1)}, count = 1\<rparr>,
                    \<lparr>cells = {(0, 0), (0, 1), (0, 2)}, count = 2\<rparr>]\<rparr>) \<and>
   \<lparr>cells = {(0, 0), (0, 1), (0, 2)}, count = 2\<rparr> \<in> set (knowledge
      \<lparr>height = 1, width = 3, moves_made = {}, mines = {}, safes = {},
       knowledge = [\<lparr>cells = {(0, 0), (0, 1)}, count = 1\<rparr>,
                    \<lparr>cells = {(0, 0), (0, 1), (0, 2)}, count = 2\<rparr>]\<rparr>) \<and>
   \<lparr>cells = {(0, 2)}, count = 1\<rparr> \<notin> set (knowledge (add_knowledge runtime0
      \<lparr>height = 1, width = 3, moves_made = {}, mines = {}, safes = {},
       knowledge = [\<lparr>cells = {(0, 0), (0, 1)}, count = 1\<rparr>,
                    \<lparr>cells = {(0, 0), (0, 1), (0, 2)}, count = 2\<rparr>]\<rparr> (0, 2) 0)) \<and>
   (0, 2) \<notin> mines (add_knowledge runtime0
      \<lparr>height = 1, width = 3, moves_made = {}, mines = {}, safes = {},
       knowledge = [\<lparr>cells = {(0, 0), (0, 1)}, count = 1\<rparr>,
                    \<lparr>cells = {(0, 0), (0, 1), (0, 2)}, count = 2\<rparr>]\<rparr> (0, 2) 0)"
  by code_simp

end
